theory Spec2Isabelle
  imports Main "HOL-Library.Word" "HOL-Library.Sublist" "HOL-Library.AList"
begin

unbundle bit_operations_syntax

section \<open>Descriptor resolution (package protoresolve)\<close>

subsection \<open>Descriptors\<close>

text \<open>
  The descriptors of \<^verbatim>\<open>protoreflect\<close> are read through their interface methods.
  Each descriptor is modelled by the values these methods return: \<^verbatim>\<open>Name()\<close>,
  \<^verbatim>\<open>FullName()\<close> and the child lists (\<^verbatim>\<open>Messages()\<close>, \<^verbatim>\<open>Enums()\<close>, ...).
  Field numbers are \<^verbatim>\<open>int32\<close>.
\<close>

type_synonym Name = string
type_synonym FullName = string
type_synonym FieldNumber = "32 word"

datatype EnumValueDescriptor =
  EnumValueDescriptor (ev_Name: Name) (ev_FullName: FullName)

datatype EnumDescriptor =
  EnumDescriptor (en_Name: Name) (en_FullName: FullName) (en_Values: "EnumValueDescriptor list")

text \<open>
  A field descriptor; an extension is a field descriptor whose \<^verbatim>\<open>IsExtension()\<close> is true.
  \<open>fd_ContainingMessage\<close> is \<^verbatim>\<open>ContainingMessage().FullName()\<close>.
\<close>

datatype FieldDescriptor =
  FieldDescriptor (fd_Name: Name) (fd_FullName: FullName) (fd_Number: FieldNumber)
    (fd_IsExtension: bool) (fd_ContainingMessage: FullName)

datatype OneofDescriptor =
  OneofDescriptor (oo_Name: Name) (oo_FullName: FullName)

datatype MessageDescriptor =
  MessageDescriptor (md_Name: Name) (md_FullName: FullName)
    (md_Fields: "FieldDescriptor list") (md_Oneofs: "OneofDescriptor list")
    (md_Messages: "MessageDescriptor list") (md_Enums: "EnumDescriptor list")
    (md_Extensions: "FieldDescriptor list")

datatype MethodDescriptor =
  MethodDescriptor (mt_Name: Name) (mt_FullName: FullName)

datatype ServiceDescriptor =
  ServiceDescriptor (sv_Name: Name) (sv_FullName: FullName) (sv_Methods: "MethodDescriptor list")

datatype FileDescriptor =
  FileDescriptor (fl_Path: string) (fl_Package: FullName)
    (fl_Messages: "MessageDescriptor list") (fl_Enums: "EnumDescriptor list")
    (fl_Extensions: "FieldDescriptor list") (fl_Services: "ServiceDescriptor list")

text \<open>
  A value of the interface \<^verbatim>\<open>protoreflect.Descriptor\<close>: one of the eight descriptor
  interfaces, or an implementation that satisfies none of them (\<open>DForeign\<close>, of which
  only the full name is visible).
\<close>

datatype Descriptor =
    DFile FileDescriptor
  | DMessage MessageDescriptor
  | DField FieldDescriptor
  | DOneof OneofDescriptor
  | DEnum EnumDescriptor
  | DEnumValue EnumValueDescriptor
  | DService ServiceDescriptor
  | DMethod MethodDescriptor
  | DForeign FullName

fun FullName :: "Descriptor \<Rightarrow> FullName" where
  "FullName (DFile f) = fl_Package f"
| "FullName (DMessage m) = md_FullName m"
| "FullName (DField f) = fd_FullName f"
| "FullName (DOneof ou) = oo_FullName ou"
| "FullName (DEnum e) = en_FullName e"
| "FullName (DEnumValue v) = ev_FullName v"
| "FullName (DService s) = sv_FullName s"
| "FullName (DMethod m) = mt_FullName m"
| "FullName (DForeign n) = n"

subsection \<open>Descriptor kinds\<close>

text \<open>
  \<^verbatim>\<open>DescriptorKind\<close> is an \<^verbatim>\<open>int\<close> whose constants are numbered by \<^verbatim>\<open>iota\<close>:
  \<open>DescriptorKindUnknown\<close> is 0, the zero value of the type.
\<close>

datatype DescriptorKind =
    DescriptorKindUnknown
  | DescriptorKindFile
  | DescriptorKindMessage
  | DescriptorKindField
  | DescriptorKindOneof
  | DescriptorKindEnum
  | DescriptorKindEnumValue
  | DescriptorKindExtension
  | DescriptorKindService
  | DescriptorKindMethod

fun KindOf :: "Descriptor \<Rightarrow> DescriptorKind" where
  "KindOf (DFile _) = DescriptorKindFile"
| "KindOf (DMessage _) = DescriptorKindMessage"
| "KindOf (DField d) =
     (if fd_IsExtension d then DescriptorKindExtension else DescriptorKindField)"
| "KindOf (DOneof _) = DescriptorKindOneof"
| "KindOf (DEnum _) = DescriptorKindEnum"
| "KindOf (DEnumValue _) = DescriptorKindEnumValue"
| "KindOf (DService _) = DescriptorKindService"
| "KindOf (DMethod _) = DescriptorKindMethod"
| "KindOf (DForeign _) = DescriptorKindUnknown"

fun withArticle :: "DescriptorKind \<Rightarrow> string" where
  "withArticle DescriptorKindFile = ''a file''"
| "withArticle DescriptorKindMessage = ''a message''"
| "withArticle DescriptorKindField = ''a field''"
| "withArticle DescriptorKindOneof = ''a oneof''"
| "withArticle DescriptorKindEnum = ''an enum''"
| "withArticle DescriptorKindEnumValue = ''an enum value''"
| "withArticle DescriptorKindExtension = ''an extension''"
| "withArticle DescriptorKindService = ''a service''"
| "withArticle DescriptorKindMethod = ''a method''"
| "withArticle DescriptorKindUnknown = ''unknown''"

subsection \<open>Errors of the resolvers\<close>

text \<open>
  \<^verbatim>\<open>ErrUnexpectedType\<close>. A field that the constructor does not set keeps the zero
  value of its type: the empty string, kind 0, the nil descriptor (\<open>None\<close>).
\<close>

record ErrUnexpectedType =
  URL :: string
  Name :: FullName
  Expecting :: DescriptorKind
  Actual :: DescriptorKind
  Descriptor :: "Descriptor option"

definition NewUnexpectedTypeError ::
  "DescriptorKind \<Rightarrow> Descriptor \<Rightarrow> string \<Rightarrow> ErrUnexpectedType" where
  "NewUnexpectedTypeError expecting got url =
     (let name = (if url = [] then FullName got else [])
      in \<lparr> URL = url, Name = name, Expecting = expecting,
           Actual = DescriptorKindUnknown, Descriptor = Some got \<rparr>)"

text \<open>
  The errors a resolver returns: \<^verbatim>\<open>ErrNotFound\<close> (possibly wrapped with the name that
  was looked up), an \<^verbatim>\<open>*ErrUnexpectedType\<close>, or any other error of the pool.
\<close>

datatype resolve_error =
    ErrNotFound
  | NotFoundError string
  | UnexpectedType ErrUnexpectedType
  | OtherResolveError string

text \<open>
  \<^verbatim>\<open>resolverFromPool\<close> embeds a \<^verbatim>\<open>DescriptorPool\<close>, an interface. Its method
  \<^verbatim>\<open>FindDescriptorByName\<close> is the first parameter of the two functions below.
\<close>

definition FindMessageByName ::
  "(FullName \<Rightarrow> resolve_error + Descriptor) \<Rightarrow> FullName \<Rightarrow> resolve_error + MessageDescriptor" where
  "FindMessageByName FindDescriptorByName name =
     (case FindDescriptorByName name of
        Inl err \<Rightarrow> Inl err
      | Inr d \<Rightarrow>
          (case d of
             DMessage msg \<Rightarrow> Inr msg
           | _ \<Rightarrow> Inl (UnexpectedType (NewUnexpectedTypeError DescriptorKindMessage d []))))"

definition FindExtensionByName ::
  "(FullName \<Rightarrow> resolve_error + Descriptor) \<Rightarrow> FullName \<Rightarrow> resolve_error + FieldDescriptor" where
  "FindExtensionByName FindDescriptorByName name =
     (case FindDescriptorByName name of
        Inl err \<Rightarrow> Inl err
      | Inr d \<Rightarrow>
          (case d of
             DField field \<Rightarrow>
               (if \<not> fd_IsExtension field
                then Inl (UnexpectedType
                       (NewUnexpectedTypeError DescriptorKindExtension (DField field) []))
                else Inr field)
           | _ \<Rightarrow> Inl (UnexpectedType (NewUnexpectedTypeError DescriptorKindExtension d []))))"

subsection \<open>Extension lookup\<close>

text \<open>
  \<^verbatim>\<open>TypeContainer\<close> is the interface with \<^verbatim>\<open>Messages()\<close> and \<^verbatim>\<open>Extensions()\<close>
  (among others); files and messages implement it.
\<close>

datatype TypeContainer = TCFile FileDescriptor | TCMessage MessageDescriptor

fun Extensions :: "TypeContainer \<Rightarrow> FieldDescriptor list" where
  "Extensions (TCFile f) = fl_Extensions f"
| "Extensions (TCMessage m) = md_Extensions m"

fun Messages :: "TypeContainer \<Rightarrow> MessageDescriptor list" where
  "Messages (TCFile f) = fl_Messages f"
| "Messages (TCMessage m) = md_Messages m"

fun csize :: "TypeContainer \<Rightarrow> nat" where
  "csize (TCFile f) = Suc (size_list size (fl_Messages f))"
| "csize (TCMessage m) = size m"

lemma size_Messages_less: "size_list size (Messages c) < csize c"
proof (cases c)
  case (TCFile f)
  then show ?thesis by simp
next
  case (TCMessage m)
  then show ?thesis by (cases m) simp
qed

text \<open>
  \<open>findExtension\<close>: the first loop is over the extensions of the scope, the second
  (\<open>findExtension_nested\<close>) over its messages.
\<close>

function findExtension ::
    "TypeContainer \<Rightarrow> FullName \<Rightarrow> FieldNumber \<Rightarrow> FieldDescriptor option"
  and findExtension_nested ::
    "MessageDescriptor list \<Rightarrow> FullName \<Rightarrow> FieldNumber \<Rightarrow> FieldDescriptor option"
where
  "findExtension container message field =
     (case find (\<lambda>ext. fd_Number ext = field \<and> fd_ContainingMessage ext = message)
             (Extensions container) of
        Some ext \<Rightarrow> Some ext
      | None \<Rightarrow> findExtension_nested (Messages container) message field)"
| "findExtension_nested [] message field = None"
| "findExtension_nested (msg # msgs) message field =
     (case findExtension (TCMessage msg) message field of
        Some ext \<Rightarrow> Some ext
      | None \<Rightarrow> findExtension_nested msgs message field)"
  by pat_completeness auto
termination
  by (relation "measure (\<lambda>x. case x of
                    Inl (c, _, _) \<Rightarrow> csize c
                  | Inr (ms, _, _) \<Rightarrow> size_list size ms)")
     (auto simp: size_Messages_less)

definition FindExtensionByNumberInFile ::
  "FileDescriptor \<Rightarrow> FullName \<Rightarrow> FieldNumber \<Rightarrow> FieldDescriptor option" where
  "FindExtensionByNumberInFile file message field = findExtension (TCFile file) message field"

text \<open>
  A \<^verbatim>\<open>DescriptorPool\<close> is an interface; of it the two functions below use only
  \<^verbatim>\<open>RangeFiles\<close>, which calls a function on each file until it returns false. The pool
  is modelled by the list of its files in the order \<^verbatim>\<open>RangeFiles\<close> visits them. The
  callback is a closure over variables of the caller: it takes their state and returns
  it with its answer.
\<close>

fun RangeFiles ::
  "FileDescriptor list \<Rightarrow> ('s \<Rightarrow> FileDescriptor \<Rightarrow> bool \<times> 's) \<Rightarrow> 's \<Rightarrow> 's" where
  "RangeFiles [] fn s = s"
| "RangeFiles (fd # fds) fn s =
     (case fn s fd of
        (True, s') \<Rightarrow> RangeFiles fds fn s'
      | (False, s') \<Rightarrow> s')"

definition FindExtensionByNumber ::
  "FileDescriptor list \<Rightarrow> FullName \<Rightarrow> FieldNumber \<Rightarrow> FieldDescriptor option" where
  "FindExtensionByNumber res message field =
     RangeFiles res
       (\<lambda>ext fd. let ext' = FindExtensionByNumberInFile fd message field
                 in (ext' = None, ext'))
       None"

text \<open>
  \<open>rangeInContext\<close> with its two loops. The visitor \<open>fn\<close> is a Go closure; it is
  given the state it closes over and returns it updated.
\<close>

fun rangeExtensions ::
  "FullName \<Rightarrow> ('s \<Rightarrow> FieldDescriptor \<Rightarrow> bool \<times> 's) \<Rightarrow> FieldDescriptor list \<Rightarrow> 's \<Rightarrow> bool \<times> 's"
where
  "rangeExtensions message fn [] s = (True, s)"
| "rangeExtensions message fn (ext # exts) s =
     (if fd_ContainingMessage ext = message
      then (case fn s ext of
              (False, s') \<Rightarrow> (False, s')
            | (True, s') \<Rightarrow> rangeExtensions message fn exts s')
      else rangeExtensions message fn exts s)"

function rangeInContext ::
    "FullName \<Rightarrow> ('s \<Rightarrow> FieldDescriptor \<Rightarrow> bool \<times> 's) \<Rightarrow> TypeContainer \<Rightarrow> 's \<Rightarrow> bool \<times> 's"
  and rangeInContext_nested ::
    "FullName \<Rightarrow> ('s \<Rightarrow> FieldDescriptor \<Rightarrow> bool \<times> 's) \<Rightarrow> MessageDescriptor list \<Rightarrow> 's \<Rightarrow> bool \<times> 's"
where
  "rangeInContext message fn container s =
     (case rangeExtensions message fn (Extensions container) s of
        (False, s') \<Rightarrow> (False, s')
      | (True, s') \<Rightarrow> rangeInContext_nested message fn (Messages container) s')"
| "rangeInContext_nested message fn [] s = (True, s)"
| "rangeInContext_nested message fn (msg # msgs) s =
     (case rangeInContext message fn (TCMessage msg) s of
        (False, s') \<Rightarrow> (False, s')
      | (True, s') \<Rightarrow> rangeInContext_nested message fn msgs s')"
  by pat_completeness auto
termination
  by (relation "measure (\<lambda>x. case x of
                    Inl (_, _, c, _) \<Rightarrow> csize c
                  | Inr (_, _, ms, _) \<Rightarrow> size_list size ms)")
     (auto simp: size_Messages_less)

definition RangeExtensionsByMessage ::
  "FileDescriptor list \<Rightarrow> FullName \<Rightarrow> ('s \<Rightarrow> FieldDescriptor \<Rightarrow> bool \<times> 's) \<Rightarrow> 's \<Rightarrow> 's" where
  "RangeExtensionsByMessage res message fn s =
     RangeFiles res (\<lambda>s file. rangeInContext message fn (TCFile file) s) s"

text \<open>
  The extensions declared in a scope, in declaration order: those of the scope itself,
  then those of each nested message in turn. This is the reference enumeration the
  lookups are compared with.
\<close>

function declaredIn :: "TypeContainer \<Rightarrow> FieldDescriptor list"
  and declaredIn_nested :: "MessageDescriptor list \<Rightarrow> FieldDescriptor list"
where
  "declaredIn container = Extensions container @ declaredIn_nested (Messages container)"
| "declaredIn_nested [] = []"
| "declaredIn_nested (msg # msgs) = declaredIn (TCMessage msg) @ declaredIn_nested msgs"
  by pat_completeness auto
termination
  by (relation "measure (\<lambda>x. case x of
                    Inl c \<Rightarrow> csize c
                  | Inr ms \<Rightarrow> size_list size ms)")
     (auto simp: size_Messages_less)

definition declaredExtensions :: "FileDescriptor list \<Rightarrow> FieldDescriptor list" where
  "declaredExtensions res = concat (map (\<lambda>file. declaredIn (TCFile file)) res)"

text \<open>Calling a visitor on each element of a list in turn, until it returns false.\<close>

fun visitUntil :: "('s \<Rightarrow> 'a \<Rightarrow> bool \<times> 's) \<Rightarrow> 'a list \<Rightarrow> 's \<Rightarrow> bool \<times> 's" where
  "visitUntil fn [] s = (True, s)"
| "visitUntil fn (x # xs) s =
     (case fn s x of
        (False, s') \<Rightarrow> (False, s')
      | (True, s') \<Rightarrow> visitUntil fn xs s')"

subsection \<open>Symbol lookup in a file\<close>

text \<open>
  \<^verbatim>\<open>strings.TrimPrefix\<close> and \<^verbatim>\<open>strings.Split\<close> with the separator \<^verbatim>\<open>"."\<close>. The
  latter never returns an empty slice: a string without a dot is its only component.
\<close>

definition TrimPrefix :: "string \<Rightarrow> string \<Rightarrow> string" where
  "TrimPrefix s pre = (if prefix pre s then drop (length pre) s else s)"

fun Split :: "string \<Rightarrow> string list" where
  "Split [] = [[]]"
| "Split (c # cs) =
     (if c = CHR ''.'' then [] # Split cs
      else (case Split cs of
              p # ps \<Rightarrow> (c # p) # ps
            | [] \<Rightarrow> [[c]]))"

text \<open>
  \<^verbatim>\<open>ByName\<close> of a descriptor list: the descriptor with that name, or nil. The first
  argument is the \<^verbatim>\<open>Name()\<close> method of the element type.
\<close>

definition ByName :: "('a \<Rightarrow> Name) \<Rightarrow> Name \<Rightarrow> 'a list \<Rightarrow> 'a option" where
  "ByName name n ds = find (\<lambda>d. name d = n) ds"

text \<open>Indexing an empty slice panics.\<close>

datatype panic = IndexOutOfRange

text \<open>The loop over the enums of a scope that looks for an enum value.\<close>

fun enumValueByName :: "Name \<Rightarrow> EnumDescriptor list \<Rightarrow> EnumValueDescriptor option" where
  "enumValueByName n [] = None"
| "enumValueByName n (enum # enums) =
     (case ByName ev_Name n (en_Values enum) of
        Some d \<Rightarrow> Some d
      | None \<Rightarrow> enumValueByName n enums)"

fun findSymbolInMessage :: "string list \<Rightarrow> MessageDescriptor \<Rightarrow> panic + Descriptor option" where
  "findSymbolInMessage [] md = Inl IndexOutOfRange"
| "findSymbolInMessage [n] md =
     (case ByName fd_Name n (md_Fields md) of
        Some d \<Rightarrow> Inr (Some (DField d))
      | None \<Rightarrow>
     (case ByName oo_Name n (md_Oneofs md) of
        Some d \<Rightarrow> Inr (Some (DOneof d))
      | None \<Rightarrow>
     (case ByName md_Name n (md_Messages md) of
        Some d \<Rightarrow> Inr (Some (DMessage d))
      | None \<Rightarrow>
     (case ByName en_Name n (md_Enums md) of
        Some d \<Rightarrow> Inr (Some (DEnum d))
      | None \<Rightarrow>
     (case ByName fd_Name n (md_Extensions md) of
        Some d \<Rightarrow> Inr (Some (DField d))
      | None \<Rightarrow>
     (case enumValueByName n (md_Enums md) of
        Some d \<Rightarrow> Inr (Some (DEnumValue d))
      | None \<Rightarrow> Inr None))))))"
| "findSymbolInMessage (first # rest) md =
     (case ByName md_Name first (md_Messages md) of
        Some nested \<Rightarrow> findSymbolInMessage rest nested
      | None \<Rightarrow> Inr None)"

fun findSymbolInFile :: "string list \<Rightarrow> FileDescriptor \<Rightarrow> panic + Descriptor option" where
  "findSymbolInFile [] fd = Inl IndexOutOfRange"
| "findSymbolInFile [n] fd =
     (case ByName md_Name n (fl_Messages fd) of
        Some d \<Rightarrow> Inr (Some (DMessage d))
      | None \<Rightarrow>
     (case ByName en_Name n (fl_Enums fd) of
        Some d \<Rightarrow> Inr (Some (DEnum d))
      | None \<Rightarrow>
     (case ByName fd_Name n (fl_Extensions fd) of
        Some d \<Rightarrow> Inr (Some (DField d))
      | None \<Rightarrow>
     (case ByName sv_Name n (fl_Services fd) of
        Some d \<Rightarrow> Inr (Some (DService d))
      | None \<Rightarrow>
     (case enumValueByName n (fl_Enums fd) of
        Some d \<Rightarrow> Inr (Some (DEnumValue d))
      | None \<Rightarrow> Inr None)))))"
| "findSymbolInFile (first # second # rest) fd =
     (case (if length (first # second # rest) = 2 then ByName sv_Name first (fl_Services fd)
            else None) of
        Some svc \<Rightarrow>
          (case ByName mt_Name second (sv_Methods svc) of
             Some d \<Rightarrow> Inr (Some (DMethod d))
           | None \<Rightarrow> Inr None)
      | None \<Rightarrow>
          (case ByName md_Name first (fl_Messages fd) of
             Some msg \<Rightarrow> findSymbolInMessage (second # rest) msg
           | None \<Rightarrow> Inr None))"

definition FindDescriptorByNameInFile :: "FileDescriptor \<Rightarrow> FullName \<Rightarrow> panic + Descriptor option" where
  "FindDescriptorByNameInFile file symbol =
     (if fl_Package file \<noteq> []
      then (let symNoPkg = TrimPrefix symbol (fl_Package file @ ''.'')
            in if symNoPkg = symbol then Inr None
               else findSymbolInFile (Split symNoPkg) file)
      else findSymbolInFile (Split symbol) file)"

subsection \<open>The descriptors a file declares\<close>

text \<open>
  Every descriptor declared in a message, with its path of names below the message.
  An enum value is declared in the scope of its enum, so its path does not name the
  enum.
\<close>

definition enumValueDecls :: "EnumDescriptor list \<Rightarrow> (Name list \<times> Descriptor) list" where
  "enumValueDecls enums =
     concat (map (\<lambda>e. map (\<lambda>v. ([ev_Name v], DEnumValue v)) (en_Values e)) enums)"

fun messageDecls :: "MessageDescriptor \<Rightarrow> (Name list \<times> Descriptor) list" where
  "messageDecls (MessageDescriptor n fn flds oos msgs ens exts) =
     map (\<lambda>f. ([fd_Name f], DField f)) flds
     @ map (\<lambda>ou. ([oo_Name ou], DOneof ou)) oos
     @ map (\<lambda>m. ([md_Name m], DMessage m)) msgs
     @ map (\<lambda>e. ([en_Name e], DEnum e)) ens
     @ map (\<lambda>x. ([fd_Name x], DField x)) exts
     @ enumValueDecls ens
     @ concat (map (\<lambda>m. map (\<lambda>(p, d). (md_Name m # p, d)) (messageDecls m)) msgs)"

definition fileDecls :: "FileDescriptor \<Rightarrow> (Name list \<times> Descriptor) list" where
  "fileDecls fd =
     map (\<lambda>m. ([md_Name m], DMessage m)) (fl_Messages fd)
     @ map (\<lambda>e. ([en_Name e], DEnum e)) (fl_Enums fd)
     @ map (\<lambda>x. ([fd_Name x], DField x)) (fl_Extensions fd)
     @ map (\<lambda>s. ([sv_Name s], DService s)) (fl_Services fd)
     @ enumValueDecls (fl_Enums fd)
     @ concat (map (\<lambda>s. map (\<lambda>m. ([sv_Name s, mt_Name m], DMethod m)) (sv_Methods s))
         (fl_Services fd))
     @ concat (map (\<lambda>m. map (\<lambda>(p, d). (md_Name m # p, d)) (messageDecls m)) (fl_Messages fd))"

text \<open>
  The names declared directly in a scope. In a valid descriptor they are pairwise
  distinct and none contains a dot.
\<close>

definition enumValueNames :: "EnumDescriptor list \<Rightarrow> Name list" where
  "enumValueNames enums = concat (map (\<lambda>e. map ev_Name (en_Values e)) enums)"

definition messageScopeNames :: "MessageDescriptor \<Rightarrow> Name list" where
  "messageScopeNames md =
     map fd_Name (md_Fields md) @ map oo_Name (md_Oneofs md) @ map md_Name (md_Messages md)
     @ map en_Name (md_Enums md) @ map fd_Name (md_Extensions md)
     @ enumValueNames (md_Enums md)"

definition fileScopeNames :: "FileDescriptor \<Rightarrow> Name list" where
  "fileScopeNames fd =
     map md_Name (fl_Messages fd) @ map en_Name (fl_Enums fd) @ map fd_Name (fl_Extensions fd)
     @ map sv_Name (fl_Services fd) @ enumValueNames (fl_Enums fd)"

definition namesOk :: "Name list \<Rightarrow> bool" where
  "namesOk ns \<longleftrightarrow> distinct ns \<and> list_all (\<lambda>n. CHR ''.'' \<notin> set n) ns"

fun messageScopesOk :: "MessageDescriptor \<Rightarrow> bool" where
  "messageScopesOk (MessageDescriptor n fn flds oos msgs ens exts) \<longleftrightarrow>
     namesOk (messageScopeNames (MessageDescriptor n fn flds oos msgs ens exts))
     \<and> list_all messageScopesOk msgs"

definition fileScopesOk :: "FileDescriptor \<Rightarrow> bool" where
  "fileScopesOk fd \<longleftrightarrow>
     namesOk (fileScopeNames fd)
     \<and> list_all (\<lambda>s. namesOk (map mt_Name (sv_Methods s))) (fl_Services fd)
     \<and> list_all messageScopesOk (fl_Messages fd)"

text \<open>The full name of a declaration: the package, then the path, joined by dots.\<close>

fun Join :: "string list \<Rightarrow> string" where
  "Join [] = []"
| "Join [n] = n"
| "Join (n # ns) = n @ ''.'' @ Join ns"

definition qualifiedName :: "FullName \<Rightarrow> Name list \<Rightarrow> FullName" where
  "qualifiedName pkg p = (if pkg = [] then Join p else pkg @ ''.'' @ Join p)"

definition wellFormedFile :: "FileDescriptor \<Rightarrow> bool" where
  "wellFormedFile fd \<longleftrightarrow>
     fileScopesOk fd
     \<and> list_all (\<lambda>(p, d). FullName d = qualifiedName (fl_Package fd) p) (fileDecls fd)"

text \<open>An example file with every kind of declaration.\<close>

definition ex_file3 :: FileDescriptor where
  "ex_file3 = FileDescriptor ''a.proto'' ''p''
     [MessageDescriptor ''M'' ''p.M''
        [FieldDescriptor ''id'' ''p.M.id'' 1 False ''p.M'']
        [OneofDescriptor ''choice'' ''p.M.choice'']
        [MessageDescriptor ''N'' ''p.M.N'' [FieldDescriptor ''v'' ''p.M.N.v'' 1 False ''p.M.N''] [] [] [] []]
        [EnumDescriptor ''Color'' ''p.M.Color'' [EnumValueDescriptor ''RED'' ''p.M.RED'']]
        [FieldDescriptor ''ext'' ''p.M.ext'' 100 True ''p.M'']]
     [EnumDescriptor ''Kind'' ''p.Kind'' [EnumValueDescriptor ''K0'' ''p.K0'']]
     [FieldDescriptor ''top'' ''p.top'' 101 True ''p.M'']
     [ServiceDescriptor ''Svc'' ''p.Svc'' [MethodDescriptor ''Get'' ''p.Svc.Get'']]"

section \<open>Classification of descriptors\<close>

text \<open>
  C9. \<open>KindOf\<close> is a total function: every descriptor has exactly one kind, a foreign
  implementation has the unknown kind, and a field descriptor is an extension when its
  extension flag is set and a field otherwise, never both.
\<close>

theorem KindOf_total_and_refined:
  "(\<exists>!k. KindOf d = k)
   \<and> KindOf (DForeign n) = DescriptorKindUnknown
   \<and> (fd_IsExtension f \<longrightarrow>
        KindOf (DField f) = DescriptorKindExtension \<and> KindOf (DField f) \<noteq> DescriptorKindField)
   \<and> (\<not> fd_IsExtension f \<longrightarrow> KindOf (DField f) = DescriptorKindField)
   \<and> (KindOf d = DescriptorKindUnknown \<longleftrightarrow> (\<exists>n. d = DForeign n))"
  by (cases d) auto

theorem KindOf_total_and_refined_witness:
  "(\<exists>!k. KindOf (DEnum (EnumDescriptor ''E'' ''p.E'' [])) = k)
   \<and> fd_IsExtension (FieldDescriptor ''x'' ''p.x'' 100 True ''p.M'')
   \<and> KindOf (DField (FieldDescriptor ''x'' ''p.x'' 100 True ''p.M'')) = DescriptorKindExtension
   \<and> \<not> fd_IsExtension (FieldDescriptor ''y'' ''p.M.y'' 1 False ''p.M'')
   \<and> KindOf (DField (FieldDescriptor ''y'' ''p.M.y'' 1 False ''p.M'')) = DescriptorKindField"
  using KindOf_total_and_refined [of "DEnum (EnumDescriptor ''E'' ''p.E'' [])" "''z''"
      "FieldDescriptor ''x'' ''p.x'' 100 True ''p.M''"]
    KindOf_total_and_refined [of "DEnum (EnumDescriptor ''E'' ''p.E'' [])" "''z''"
      "FieldDescriptor ''y'' ''p.M.y'' 1 False ''p.M''"]
  by simp

section \<open>Unexpected-type errors\<close>

text \<open>
  C8. A name that resolves to a descriptor of the wrong kind gives an
  \<^verbatim>\<open>*ErrUnexpectedType\<close> with the expected kind, the query and the descriptor found.
  The kind that was found is not recorded: \<open>NewUnexpectedTypeError\<close> leaves \<open>Actual\<close>
  at its zero value, the unknown kind, also where \<open>KindOf\<close> of the descriptor is known.
  Here a pool resolves \<^verbatim>\<open>p.E\<close> to an enum and \<^verbatim>\<open>p.M.y\<close> to a regular field.
\<close>

theorem FindMessageByName_Actual_unset:
  "FindMessageByName (\<lambda>n. Inr (DEnum (EnumDescriptor ''E'' ''p.E'' []))) ''p.E'' =
     Inl (UnexpectedType
       \<lparr> URL = [], Name = ''p.E'', Expecting = DescriptorKindMessage,
         Actual = DescriptorKindUnknown,
         Descriptor = Some (DEnum (EnumDescriptor ''E'' ''p.E'' [])) \<rparr>)
   \<and> KindOf (DEnum (EnumDescriptor ''E'' ''p.E'' [])) = DescriptorKindEnum
   \<and> FindExtensionByName
         (\<lambda>n. Inr (DField (FieldDescriptor ''y'' ''p.M.y'' 1 False ''p.M''))) ''p.M.y'' =
     Inl (UnexpectedType
       \<lparr> URL = [], Name = ''p.M.y'', Expecting = DescriptorKindExtension,
         Actual = DescriptorKindUnknown,
         Descriptor = Some (DField (FieldDescriptor ''y'' ''p.M.y'' 1 False ''p.M'')) \<rparr>)
   \<and> KindOf (DField (FieldDescriptor ''y'' ''p.M.y'' 1 False ''p.M'')) = DescriptorKindField"
  by (simp add: FindMessageByName_def FindExtensionByName_def NewUnexpectedTypeError_def)

section \<open>Extension lookup by number\<close>

subsection \<open>An example pool\<close>

text \<open>
  Two files: \<^verbatim>\<open>a.proto\<close> declares messages \<^verbatim>\<open>p.M\<close> and \<^verbatim>\<open>p.A\<close>, the latter with a
  nested extension of \<^verbatim>\<open>p.M\<close>; \<^verbatim>\<open>b.proto\<close> declares three extensions at file scope.
\<close>

definition ex_e1 :: FieldDescriptor where
  "ex_e1 = FieldDescriptor ''x'' ''p.A.x'' 100 True ''p.M''"
definition ex_e2 :: FieldDescriptor where
  "ex_e2 = FieldDescriptor ''y'' ''q.y'' 100 True ''p.M''"
definition ex_e3 :: FieldDescriptor where
  "ex_e3 = FieldDescriptor ''z'' ''q.z'' 101 True ''p.M''"
definition ex_e4 :: FieldDescriptor where
  "ex_e4 = FieldDescriptor ''w'' ''q.w'' 100 True ''p.A''"

definition ex_file1 :: FileDescriptor where
  "ex_file1 = FileDescriptor ''a.proto'' ''p''
     [MessageDescriptor ''M'' ''p.M'' [] [] [] [] [],
      MessageDescriptor ''A'' ''p.A'' [] [] [] [] [ex_e1]] [] [] []"
definition ex_file2 :: FileDescriptor where
  "ex_file2 = FileDescriptor ''b.proto'' ''q'' [] [] [ex_e4, ex_e2, ex_e3] []"


subsection \<open>The lookups against the declaration order\<close>

lemma find_append_case:
  "find P (xs @ ys) = (case find P xs of Some x \<Rightarrow> Some x | None \<Rightarrow> find P ys)"
  by (induction xs) auto

lemma findExtension_is_find:
  "findExtension c M n =
     find (\<lambda>ext. fd_Number ext = n \<and> fd_ContainingMessage ext = M) (declaredIn c)"
  "findExtension_nested ms M n =
     find (\<lambda>ext. fd_Number ext = n \<and> fd_ContainingMessage ext = M) (declaredIn_nested ms)"
proof (induction c M n and ms M n rule: findExtension_findExtension_nested.induct)
  case (1 container message field)
  then show ?case by (simp add: find_append_case split: option.splits)
next
  case (2 message field)
  then show ?case by simp
next
  case (3 msg msgs message field)
  then show ?case by (simp add: find_append_case split: option.splits)
qed

lemma FindExtensionByNumber_is_find:
  "FindExtensionByNumber res M n =
     find (\<lambda>ext. fd_Number ext = n \<and> fd_ContainingMessage ext = M) (declaredExtensions res)"
proof -
  have "RangeFiles res
          (\<lambda>ext fd. let ext' = FindExtensionByNumberInFile fd M n in (ext' = None, ext')) None
        = find (\<lambda>ext. fd_Number ext = n \<and> fd_ContainingMessage ext = M) (declaredExtensions res)"
  proof (induction res)
    case Nil
    then show ?case by (simp add: declaredExtensions_def)
  next
    case (Cons fd fds)
    have unf: "declaredExtensions (fd # fds) = declaredIn (TCFile fd) @ declaredExtensions fds"
      by (simp add: declaredExtensions_def)
    have fe: "findExtension (TCFile fd) M n =
        find (\<lambda>ext. fd_Number ext = n \<and> fd_ContainingMessage ext = M) (declaredIn (TCFile fd))"
      by (rule findExtension_is_find)
    show ?case
      using Cons.IH
      by (simp add: unf FindExtensionByNumberInFile_def Let_def fe find_append_case
            split: option.splits del: findExtension.simps declaredIn.simps)
  qed
  then show ?thesis by (simp add: FindExtensionByNumber_def)
qed

lemma visitUntil_append:
  "visitUntil fn (xs @ ys) s =
     (case visitUntil fn xs s of (False, s') \<Rightarrow> (False, s') | (True, s') \<Rightarrow> visitUntil fn ys s')"
  by (induction xs arbitrary: s) (auto split: prod.splits bool.splits)

lemma rangeExtensions_is_visit:
  "rangeExtensions M fn exts s =
     visitUntil fn (filter (\<lambda>e. fd_ContainingMessage e = M) exts) s"
  by (induction exts arbitrary: s) (auto split: prod.splits bool.splits)

lemma rangeInContext_is_visit:
  "rangeInContext M fn c s =
     visitUntil fn (filter (\<lambda>e. fd_ContainingMessage e = M) (declaredIn c)) s"
  "rangeInContext_nested M fn ms s =
     visitUntil fn (filter (\<lambda>e. fd_ContainingMessage e = M) (declaredIn_nested ms)) s"
proof (induction M fn c s and M fn ms s rule: rangeInContext_rangeInContext_nested.induct)
  case (1 message fn container s)
  then show ?case
    by (simp add: visitUntil_append rangeExtensions_is_visit split: prod.splits bool.splits)
next
  case (2 message fn s)
  then show ?case by simp
next
  case (3 message fn msg msgs s)
  then show ?case
    by (simp add: visitUntil_append split: prod.splits bool.splits del: rangeInContext.simps)
qed

lemma RangeExtensionsByMessage_is_visit:
  "RangeExtensionsByMessage res M fn s =
     snd (visitUntil fn (filter (\<lambda>e. fd_ContainingMessage e = M) (declaredExtensions res)) s)"
proof -
  have "RangeFiles res (\<lambda>s file. rangeInContext M fn (TCFile file) s) s =
     snd (visitUntil fn (filter (\<lambda>e. fd_ContainingMessage e = M) (declaredExtensions res)) s)"
  proof (induction res arbitrary: s)
    case Nil
    then show ?case by (simp add: declaredExtensions_def)
  next
    case (Cons fd fds)
    have unf: "declaredExtensions (fd # fds) = declaredIn (TCFile fd) @ declaredExtensions fds"
      by (simp add: declaredExtensions_def)
    show ?case
      using Cons.IH
      by (simp add: unf visitUntil_append rangeInContext_is_visit
            split: prod.splits bool.splits del: rangeInContext.simps declaredIn.simps)
  qed
  then show ?thesis by (simp add: RangeExtensionsByMessage_def)
qed

lemma count_list_distinct_member:
  "distinct xs \<Longrightarrow> x \<in> set xs \<Longrightarrow> count_list xs x = 1"
  by (induction xs) auto

lemma visitUntil_collect:
  "visitUntil (\<lambda>s x. (True, s @ [x])) xs s = (True, s @ xs)"
  by (induction xs arbitrary: s) auto


text \<open>
  C3. For an extension \<open>e\<close> declared anywhere in the pool that extends \<open>M\<close> with number
  \<open>n\<close>, \<open>FindExtensionByNumber\<close> returns a declared extension of \<open>M\<close> with number \<open>n\<close>,
  and a visitor that never asks to stop is called on \<open>e\<close> exactly once when each extension
  is declared once in the pool. The lookup returns the first match in file order, then
  declaration order; the files after the first file with a match do not change its
  result; with no match it returns nil. \<open>RangeExtensionsByMessage\<close> calls the visitor
  on the extensions of \<open>M\<close> in that same order, until the visitor returns false.
\<close>

theorem FindExtensionByNumber_and_Range:
  "(e \<in> set (declaredExtensions pool) \<and> fd_ContainingMessage e = M \<and> fd_Number e = n \<longrightarrow>
      (\<exists>e'. FindExtensionByNumber pool M n = Some e' \<and> fd_Number e' = n
            \<and> fd_ContainingMessage e' = M \<and> e' \<in> set (declaredExtensions pool))
      \<and> (distinct (declaredExtensions pool) \<longrightarrow>
           count_list (RangeExtensionsByMessage pool M (\<lambda>s x. (True, s @ [x])) []) e = 1))
   \<and> FindExtensionByNumber pool M n =
       find (\<lambda>ext. fd_Number ext = n \<and> fd_ContainingMessage ext = M) (declaredExtensions pool)
   \<and> (FindExtensionByNumberInFile f M n \<noteq> None \<longrightarrow>
        FindExtensionByNumber (pre @ f # post) M n = FindExtensionByNumber (pre @ [f]) M n)
   \<and> ((\<forall>x \<in> set (declaredExtensions pool). \<not> (fd_Number x = n \<and> fd_ContainingMessage x = M)) \<longrightarrow>
        FindExtensionByNumber pool M n = None)
   \<and> RangeExtensionsByMessage pool M fn s =
       snd (visitUntil fn (filter (\<lambda>x. fd_ContainingMessage x = M) (declaredExtensions pool)) s)"
proof -
  let ?P = "\<lambda>ext. fd_Number ext = n \<and> fd_ContainingMessage ext = M"
  let ?D = "declaredExtensions pool"
  have a: "\<exists>e'. FindExtensionByNumber pool M n = Some e' \<and> fd_Number e' = n
            \<and> fd_ContainingMessage e' = M \<and> e' \<in> set ?D"
    if "e \<in> set ?D" "fd_ContainingMessage e = M" "fd_Number e = n"
  proof -
    from that have "find ?P ?D \<noteq> None" by (auto simp: find_None_iff)
    then obtain e' where e': "find ?P ?D = Some e'" by blast
    then have "?P e' \<and> e' \<in> set ?D" by (auto simp: find_Some_iff)
    with e' show ?thesis by (simp add: FindExtensionByNumber_is_find)
  qed
  have b: "count_list (RangeExtensionsByMessage pool M (\<lambda>s x. (True, s @ [x])) []) e = 1"
    if "e \<in> set ?D" "fd_ContainingMessage e = M" "distinct ?D"
  proof -
    have vis: "RangeExtensionsByMessage pool M (\<lambda>s x. (True, s @ [x])) [] =
        filter (\<lambda>x. fd_ContainingMessage x = M) ?D"
      by (simp add: RangeExtensionsByMessage_is_visit visitUntil_collect)
    have "distinct (filter (\<lambda>x. fd_ContainingMessage x = M) ?D)"
      using that(3) by simp
    moreover have "e \<in> set (filter (\<lambda>x. fd_ContainingMessage x = M) ?D)"
      using that(1,2) by simp
    ultimately show ?thesis
      unfolding vis by (rule count_list_distinct_member)
  qed
  have c: "FindExtensionByNumber (pre @ f # post) M n = FindExtensionByNumber (pre @ [f]) M n"
    if "FindExtensionByNumberInFile f M n \<noteq> None"
  proof -
    from that have "find ?P (declaredIn (TCFile f)) \<noteq> None"
      by (simp add: FindExtensionByNumberInFile_def findExtension_is_find del: findExtension.simps)
    then show ?thesis
      by (auto simp: FindExtensionByNumber_is_find declaredExtensions_def find_append_case
            split: option.splits simp del: declaredIn.simps)
  qed
  have d: "FindExtensionByNumber pool M n = None" if "\<forall>x \<in> set ?D. \<not> ?P x"
    using that by (simp add: FindExtensionByNumber_is_find find_None_iff)
  have ab: "e \<in> set ?D \<and> fd_ContainingMessage e = M \<and> fd_Number e = n \<longrightarrow>
      (\<exists>e'. FindExtensionByNumber pool M n = Some e' \<and> fd_Number e' = n
            \<and> fd_ContainingMessage e' = M \<and> e' \<in> set ?D)
      \<and> (distinct ?D \<longrightarrow>
           count_list (RangeExtensionsByMessage pool M (\<lambda>s x. (True, s @ [x])) []) e = 1)"
    using a b by blast
  have cc: "FindExtensionByNumberInFile f M n \<noteq> None \<longrightarrow>
        FindExtensionByNumber (pre @ f # post) M n = FindExtensionByNumber (pre @ [f]) M n"
    using c by blast
  have dd: "(\<forall>x \<in> set ?D. \<not> ?P x) \<longrightarrow> FindExtensionByNumber pool M n = None"
    using d by blast
  show ?thesis
    by (intro conjI)
       (rule ab cc dd FindExtensionByNumber_is_find RangeExtensionsByMessage_is_visit)+
qed

theorem FindExtensionByNumber_and_Range_witness:
  "ex_e2 \<in> set (declaredExtensions [ex_file1, ex_file2])
   \<and> fd_ContainingMessage ex_e2 = ''p.M'' \<and> fd_Number ex_e2 = 100
   \<and> distinct (declaredExtensions [ex_file1, ex_file2])
   \<and> FindExtensionByNumber [ex_file1, ex_file2] ''p.M'' 100 = Some ex_e1
   \<and> count_list (RangeExtensionsByMessage [ex_file1, ex_file2] ''p.M''
        (\<lambda>s x. (True, s @ [x])) []) ex_e2 = 1
   \<and> FindExtensionByNumberInFile ex_file1 ''p.M'' 100 \<noteq> None
   \<and> FindExtensionByNumber ([] @ ex_file1 # [ex_file2]) ''p.M'' 100 =
       FindExtensionByNumber ([] @ [ex_file1]) ''p.M'' 100
   \<and> find (\<lambda>x. fd_Number x = 7 \<and> fd_ContainingMessage x = ''p.M'')
         (declaredExtensions [ex_file1, ex_file2]) = None
   \<and> FindExtensionByNumber [ex_file1, ex_file2] ''p.M'' 7 = None"
proof -
  have decl: "declaredExtensions [ex_file1, ex_file2] = [ex_e1, ex_e4, ex_e2, ex_e3]"
    by (simp add: declaredExtensions_def ex_file1_def ex_file2_def)
  have h1: "ex_e2 \<in> set (declaredExtensions [ex_file1, ex_file2])
      \<and> fd_ContainingMessage ex_e2 = ''p.M'' \<and> fd_Number ex_e2 = 100"
    by (simp add: decl) (simp add: ex_e2_def)
  have h2: "distinct (declaredExtensions [ex_file1, ex_file2])"
    by (simp add: decl) (simp add: ex_e1_def ex_e2_def ex_e3_def ex_e4_def)
  have h3: "FindExtensionByNumberInFile ex_file1 ''p.M'' 100 \<noteq> None"
    by (simp add: FindExtensionByNumberInFile_def ex_file1_def ex_e1_def)
  have h4: "\<forall>x \<in> set (declaredExtensions [ex_file1, ex_file2]).
         \<not> (fd_Number x = 7 \<and> fd_ContainingMessage x = ''p.M'')"
    by (simp add: decl) (simp add: ex_e1_def ex_e2_def ex_e3_def ex_e4_def)
  have h5: "find (\<lambda>x. fd_Number x = 7 \<and> fd_ContainingMessage x = ''p.M'')
         (declaredExtensions [ex_file1, ex_file2]) = None"
    using h4 by (simp add: find_None_iff)
  have first: "find (\<lambda>ext. fd_Number ext = 100 \<and> fd_ContainingMessage ext = ''p.M'')
      (declaredExtensions [ex_file1, ex_file2]) = Some ex_e1"
    by (simp add: decl) (simp add: ex_e1_def)
  note t = FindExtensionByNumber_and_Range
    [of ex_e2 "[ex_file1, ex_file2]" "''p.M''" 100 ex_file1 "[]" "[ex_file2]" "\<lambda>s x. (True, s)" "()"]
  note u = FindExtensionByNumber_and_Range
    [of ex_e2 "[ex_file1, ex_file2]" "''p.M''" 7 ex_file1 "[]" "[ex_file2]" "\<lambda>s x. (True, s)" "()"]
  have r1: "FindExtensionByNumber [ex_file1, ex_file2] ''p.M'' 100 = Some ex_e1"
    using t [THEN conjunct2, THEN conjunct1] first by (simp only:)
  have r2: "count_list (RangeExtensionsByMessage [ex_file1, ex_file2] ''p.M''
        (\<lambda>s x. (True, s @ [x])) []) ex_e2 = 1"
    using t [THEN conjunct1, THEN mp, OF h1, THEN conjunct2, THEN mp, OF h2] .
  have r3: "FindExtensionByNumber ([] @ ex_file1 # [ex_file2]) ''p.M'' 100 =
       FindExtensionByNumber ([] @ [ex_file1]) ''p.M'' 100"
    using t [THEN conjunct2, THEN conjunct2, THEN conjunct1, THEN mp, OF h3] .
  have r4: "FindExtensionByNumber [ex_file1, ex_file2] ''p.M'' 7 = None"
    using u [THEN conjunct2, THEN conjunct2, THEN conjunct2, THEN conjunct1, THEN mp, OF h4] .
  show ?thesis
    by (intro conjI h1 [THEN conjunct1] h1 [THEN conjunct2, THEN conjunct1]
          h1 [THEN conjunct2, THEN conjunct2] h2 h3 h5 r1 r2 r3 r4)
qed

section \<open>Name resolution in a file\<close>

lemma Split_dotfree: "CHR ''.'' \<notin> set n \<Longrightarrow> Split n = [n]"
  by (induction n) auto

lemma Split_append_dot: "CHR ''.'' \<notin> set n \<Longrightarrow> Split (n @ CHR ''.'' # s) = n # Split s"
  by (induction n) auto

lemma Split_Join:
  "p \<noteq> [] \<Longrightarrow> list_all (\<lambda>n. CHR ''.'' \<notin> set n) p \<Longrightarrow> Split (Join p) = p"
proof (induction p rule: Join.induct)
  case 1
  then show ?case by simp
next
  case (2 n)
  then show ?case by (simp add: Split_dotfree)
next
  case (3 n v va)
  then show ?case by (simp add: Split_append_dot del: Split.simps)
qed

lemma ByName_Some:
  "distinct (map name ds) \<Longrightarrow> d \<in> set ds \<Longrightarrow> ByName name (name d) ds = Some d"
  unfolding ByName_def by (induction ds) (auto simp: image_iff)

lemma ByName_None: "n \<notin> set (map name ds) \<Longrightarrow> ByName name n ds = None"
  unfolding ByName_def by (induction ds) auto

lemma enumValueByName_Some:
  "distinct (enumValueNames enums) \<Longrightarrow> e \<in> set enums \<Longrightarrow> v \<in> set (en_Values e) \<Longrightarrow>
     enumValueByName (ev_Name v) enums = Some v"
proof (induction enums)
  case Nil
  then show ?case by simp
next
  case (Cons a enums)
  from Cons.prems(1) have da: "distinct (map ev_Name (en_Values a))"
    and dr: "distinct (enumValueNames enums)"
    and disj: "set (map ev_Name (en_Values a)) \<inter> set (enumValueNames enums) = {}"
    by (simp_all add: enumValueNames_def)
  show ?case
  proof (cases "v \<in> set (en_Values a)")
    case True
    then show ?thesis using da by (simp add: ByName_Some)
  next
    case False
    with Cons.prems have e: "e \<in> set enums" by auto
    with Cons.prems(3) have "ev_Name v \<in> set (enumValueNames enums)"
      by (auto simp: enumValueNames_def)
    with disj have "ev_Name v \<notin> set (map ev_Name (en_Values a))" by blast
    then have "ByName ev_Name (ev_Name v) (en_Values a) = None" by (rule ByName_None)
    with Cons.IH [OF dr e Cons.prems(3)] show ?thesis by simp
  qed
qed

lemma enumValueNames_member:
  "e \<in> set enums \<Longrightarrow> v \<in> set (en_Values e) \<Longrightarrow> ev_Name v \<in> set (enumValueNames enums)"
  by (auto simp: enumValueNames_def)


lemma findSymbolInMessage_direct:
  assumes ok: "namesOk (messageScopeNames md)"
  shows "f \<in> set (md_Fields md) \<Longrightarrow> findSymbolInMessage [fd_Name f] md = Inr (Some (DField f))"
    and "ou \<in> set (md_Oneofs md) \<Longrightarrow> findSymbolInMessage [oo_Name ou] md = Inr (Some (DOneof ou))"
    and "m \<in> set (md_Messages md) \<Longrightarrow> findSymbolInMessage [md_Name m] md = Inr (Some (DMessage m))"
    and "e \<in> set (md_Enums md) \<Longrightarrow> findSymbolInMessage [en_Name e] md = Inr (Some (DEnum e))"
    and "x \<in> set (md_Extensions md) \<Longrightarrow> findSymbolInMessage [fd_Name x] md = Inr (Some (DField x))"
    and "e \<in> set (md_Enums md) \<Longrightarrow> v \<in> set (en_Values e) \<Longrightarrow>
           findSymbolInMessage [ev_Name v] md = Inr (Some (DEnumValue v))"
proof -
  let ?F = "map fd_Name (md_Fields md)" and ?O = "map oo_Name (md_Oneofs md)"
  let ?M = "map md_Name (md_Messages md)" and ?E = "map en_Name (md_Enums md)"
  let ?X = "map fd_Name (md_Extensions md)" and ?V = "enumValueNames (md_Enums md)"
  from ok have dist: "distinct (?F @ ?O @ ?M @ ?E @ ?X @ ?V)"
    by (simp add: namesOk_def messageScopeNames_def)
  then have dF: "distinct ?F" and dO: "distinct ?O" and dM: "distinct ?M"
    and dE: "distinct ?E" and dX: "distinct ?X" and dV: "distinct ?V"
    by simp_all
  from dist have FO: "set ?F \<inter> set ?O = {}" and FM: "set ?F \<inter> set ?M = {}"
    and FE: "set ?F \<inter> set ?E = {}" and FX: "set ?F \<inter> set ?X = {}"
    and FV: "set ?F \<inter> set ?V = {}"
    and OM: "set ?O \<inter> set ?M = {}" and OE: "set ?O \<inter> set ?E = {}"
    and OX: "set ?O \<inter> set ?X = {}" and OV: "set ?O \<inter> set ?V = {}"
    and ME: "set ?M \<inter> set ?E = {}" and MX: "set ?M \<inter> set ?X = {}"
    and MV: "set ?M \<inter> set ?V = {}"
    and EX: "set ?E \<inter> set ?X = {}" and EV: "set ?E \<inter> set ?V = {}"
    and XV: "set ?X \<inter> set ?V = {}"
    by auto
  show "findSymbolInMessage [fd_Name f] md = Inr (Some (DField f))" if "f \<in> set (md_Fields md)"
    using that dF by (simp add: ByName_Some)
  show "findSymbolInMessage [oo_Name ou] md = Inr (Some (DOneof ou))" if "ou \<in> set (md_Oneofs md)"
  proof -
    from that have n: "oo_Name ou \<in> set ?O" by simp
    with FO have "oo_Name ou \<notin> set ?F" by blast
    then have "ByName fd_Name (oo_Name ou) (md_Fields md) = None" by (rule ByName_None)
    then show ?thesis using that dO by (simp add: ByName_Some)
  qed
  show "findSymbolInMessage [md_Name m] md = Inr (Some (DMessage m))" if "m \<in> set (md_Messages md)"
  proof -
    from that have n: "md_Name m \<in> set ?M" by simp
    with FM OM have "md_Name m \<notin> set ?F" "md_Name m \<notin> set ?O" by blast+
    then have "ByName fd_Name (md_Name m) (md_Fields md) = None"
      "ByName oo_Name (md_Name m) (md_Oneofs md) = None" by (simp_all add: ByName_None)
    then show ?thesis using that dM by (simp add: ByName_Some)
  qed
  show "findSymbolInMessage [en_Name e] md = Inr (Some (DEnum e))" if "e \<in> set (md_Enums md)"
  proof -
    from that have n: "en_Name e \<in> set ?E" by simp
    with FE OE ME have "en_Name e \<notin> set ?F" "en_Name e \<notin> set ?O" "en_Name e \<notin> set ?M"
      by blast+
    then have "ByName fd_Name (en_Name e) (md_Fields md) = None"
      "ByName oo_Name (en_Name e) (md_Oneofs md) = None"
      "ByName md_Name (en_Name e) (md_Messages md) = None" by (simp_all add: ByName_None)
    then show ?thesis using that dE by (simp add: ByName_Some)
  qed
  show "findSymbolInMessage [fd_Name x] md = Inr (Some (DField x))" if "x \<in> set (md_Extensions md)"
  proof -
    from that have n: "fd_Name x \<in> set ?X" by simp
    with FX OX MX EX have "fd_Name x \<notin> set ?F" "fd_Name x \<notin> set ?O" "fd_Name x \<notin> set ?M"
      "fd_Name x \<notin> set ?E" by blast+
    then have "ByName fd_Name (fd_Name x) (md_Fields md) = None"
      "ByName oo_Name (fd_Name x) (md_Oneofs md) = None"
      "ByName md_Name (fd_Name x) (md_Messages md) = None"
      "ByName en_Name (fd_Name x) (md_Enums md) = None" by (simp_all add: ByName_None)
    then show ?thesis using that dX by (simp add: ByName_Some)
  qed
  show "findSymbolInMessage [ev_Name v] md = Inr (Some (DEnumValue v))"
    if "e \<in> set (md_Enums md)" "v \<in> set (en_Values e)"
  proof -
    from that have n: "ev_Name v \<in> set ?V" by (rule enumValueNames_member)
    with FV OV MV EV XV have "ev_Name v \<notin> set ?F" "ev_Name v \<notin> set ?O" "ev_Name v \<notin> set ?M"
      "ev_Name v \<notin> set ?E" "ev_Name v \<notin> set ?X" by blast+
    then have "ByName fd_Name (ev_Name v) (md_Fields md) = None"
      "ByName oo_Name (ev_Name v) (md_Oneofs md) = None"
      "ByName md_Name (ev_Name v) (md_Messages md) = None"
      "ByName en_Name (ev_Name v) (md_Enums md) = None"
      "ByName fd_Name (ev_Name v) (md_Extensions md) = None" by (simp_all add: ByName_None)
    then show ?thesis using enumValueByName_Some [OF dV that] by simp
  qed
qed

lemma messageDecls_nonempty: "(p, d) \<in> set (messageDecls md) \<Longrightarrow> p \<noteq> []"
  by (cases md) (auto simp: enumValueDecls_def)

lemma findSymbolInMessage_nested:
  "namesOk (messageScopeNames md) \<Longrightarrow> m \<in> set (md_Messages md) \<Longrightarrow> p \<noteq> [] \<Longrightarrow>
     findSymbolInMessage (md_Name m # p) md = findSymbolInMessage p m"
proof -
  assume ok: "namesOk (messageScopeNames md)" and m: "m \<in> set (md_Messages md)" and p: "p \<noteq> []"
  from ok have "distinct (map md_Name (md_Messages md))"
    by (simp add: namesOk_def messageScopeNames_def)
  with m have "ByName md_Name (md_Name m) (md_Messages md) = Some m" by (simp add: ByName_Some)
  with p show ?thesis by (cases p) simp_all
qed

lemma findSymbolInMessage_declared:
  "messageScopesOk md \<Longrightarrow> (p, d) \<in> set (messageDecls md) \<Longrightarrow>
     findSymbolInMessage p md = Inr (Some d)"
proof (induction md arbitrary: p d rule: messageDecls.induct)
  case (1 n fn flds oos msgs ens exts)
  let ?md = "MessageDescriptor n fn flds oos msgs ens exts"
  from "1.prems"(1) have ok: "namesOk (messageScopeNames ?md)"
    and sub: "list_all messageScopesOk msgs" by simp_all
  note dir = findSymbolInMessage_direct [OF ok]
  from "1.prems"(2) consider
      (field) f where "f \<in> set flds" "p = [fd_Name f]" "d = DField f"
    | (oneof) ou where "ou \<in> set oos" "p = [oo_Name ou]" "d = DOneof ou"
    | (msg) m where "m \<in> set msgs" "p = [md_Name m]" "d = DMessage m"
    | (enum) e where "e \<in> set ens" "p = [en_Name e]" "d = DEnum e"
    | (ext) x where "x \<in> set exts" "p = [fd_Name x]" "d = DField x"
    | (val) e v where "e \<in> set ens" "v \<in> set (en_Values e)" "p = [ev_Name v]" "d = DEnumValue v"
    | (nested) m p' where "m \<in> set msgs" "(p', d) \<in> set (messageDecls m)" "p = md_Name m # p'"
    by (auto simp: enumValueDecls_def)
  then show ?case
  proof cases
    case field
    then show ?thesis using dir(1) [of f] by simp
  next
    case oneof
    then show ?thesis using dir(2) [of ou] by simp
  next
    case msg
    then show ?thesis using dir(3) [of m] by simp
  next
    case enum
    then show ?thesis using dir(4) [of e] by simp
  next
    case ext
    then show ?thesis using dir(5) [of x] by simp
  next
    case val
    then show ?thesis using dir(6) [of e v] by simp
  next
    case nested
    from nested(1) sub have mok: "messageScopesOk m" by (simp add: list_all_iff)
    have "findSymbolInMessage p' m = Inr (Some d)"
      by (rule "1.IH" [OF nested(1) mok nested(2)])
    moreover have "p' \<noteq> []" using nested(2) by (rule messageDecls_nonempty)
    ultimately show ?thesis
      using findSymbolInMessage_nested [OF ok, of m p'] nested(1,3) by simp
  qed
qed

lemma messageDecls_dotfree:
  "messageScopesOk md \<Longrightarrow> (p, d) \<in> set (messageDecls md) \<Longrightarrow>
     list_all (\<lambda>n. CHR ''.'' \<notin> set n) p"
proof (induction md arbitrary: p d rule: messageDecls.induct)
  case (1 n fn flds oos msgs ens exts)
  let ?md = "MessageDescriptor n fn flds oos msgs ens exts"
  from "1.prems"(1) have ok: "list_all (\<lambda>n. CHR ''.'' \<notin> set n) (messageScopeNames ?md)"
    and sub: "list_all messageScopesOk msgs" by (simp_all add: namesOk_def)
  from "1.prems"(2) have
    "(\<exists>nm \<in> set (messageScopeNames ?md). p = [nm])
     \<or> (\<exists>m \<in> set msgs. \<exists>p'. (p', d) \<in> set (messageDecls m) \<and> p = md_Name m # p')"
    by (auto simp: enumValueDecls_def messageScopeNames_def enumValueNames_def)
  then consider
      (direct) nm where "nm \<in> set (messageScopeNames ?md)" "p = [nm]"
    | (nested) m p' where "m \<in> set msgs" "(p', d) \<in> set (messageDecls m)" "p = md_Name m # p'"
    by blast
  then show ?case
  proof cases
    case direct
    then show ?thesis using ok by (simp add: list_all_iff)
  next
    case nested
    from nested(1) sub have mok: "messageScopesOk m" by (simp add: list_all_iff)
    have "list_all (\<lambda>n. CHR ''.'' \<notin> set n) p'"
      by (rule "1.IH" [OF nested(1) mok nested(2)])
    moreover have "md_Name m \<in> set (messageScopeNames ?md)"
      using nested(1) by (simp add: messageScopeNames_def)
    ultimately show ?thesis using ok nested(3) by (simp add: list_all_iff)
  qed
qed


lemma findSymbolInFile_direct:
  assumes ok: "namesOk (fileScopeNames fd)"
  shows "m \<in> set (fl_Messages fd) \<Longrightarrow> findSymbolInFile [md_Name m] fd = Inr (Some (DMessage m))"
    and "e \<in> set (fl_Enums fd) \<Longrightarrow> findSymbolInFile [en_Name e] fd = Inr (Some (DEnum e))"
    and "x \<in> set (fl_Extensions fd) \<Longrightarrow> findSymbolInFile [fd_Name x] fd = Inr (Some (DField x))"
    and "s \<in> set (fl_Services fd) \<Longrightarrow> findSymbolInFile [sv_Name s] fd = Inr (Some (DService s))"
    and "e \<in> set (fl_Enums fd) \<Longrightarrow> v \<in> set (en_Values e) \<Longrightarrow>
           findSymbolInFile [ev_Name v] fd = Inr (Some (DEnumValue v))"
    and "s \<in> set (fl_Services fd) \<Longrightarrow> ByName sv_Name (sv_Name s) (fl_Services fd) = Some s"
    and "m \<in> set (fl_Messages fd) \<Longrightarrow> ByName sv_Name (md_Name m) (fl_Services fd) = None"
    and "m \<in> set (fl_Messages fd) \<Longrightarrow> ByName md_Name (md_Name m) (fl_Messages fd) = Some m"
proof -
  let ?M = "map md_Name (fl_Messages fd)" and ?E = "map en_Name (fl_Enums fd)"
  let ?X = "map fd_Name (fl_Extensions fd)" and ?S = "map sv_Name (fl_Services fd)"
  let ?V = "enumValueNames (fl_Enums fd)"
  from ok have dist: "distinct (?M @ ?E @ ?X @ ?S @ ?V)"
    by (simp add: namesOk_def fileScopeNames_def)
  then have dM: "distinct ?M" and dE: "distinct ?E" and dX: "distinct ?X"
    and dS: "distinct ?S" and dV: "distinct ?V"
    by simp_all
  from dist have ME: "set ?M \<inter> set ?E = {}" and MX: "set ?M \<inter> set ?X = {}"
    and MS: "set ?M \<inter> set ?S = {}" and MV: "set ?M \<inter> set ?V = {}"
    and EX: "set ?E \<inter> set ?X = {}" and ES: "set ?E \<inter> set ?S = {}"
    and EV: "set ?E \<inter> set ?V = {}"
    and XS: "set ?X \<inter> set ?S = {}" and XV: "set ?X \<inter> set ?V = {}"
    and SV: "set ?S \<inter> set ?V = {}"
    by auto
  show "findSymbolInFile [md_Name m] fd = Inr (Some (DMessage m))" if "m \<in> set (fl_Messages fd)"
    using that dM by (simp add: ByName_Some)
  show "findSymbolInFile [en_Name e] fd = Inr (Some (DEnum e))" if "e \<in> set (fl_Enums fd)"
  proof -
    from that have n: "en_Name e \<in> set ?E" by simp
    with ME have "en_Name e \<notin> set ?M" by blast
    then have "ByName md_Name (en_Name e) (fl_Messages fd) = None" by (rule ByName_None)
    then show ?thesis using that dE by (simp add: ByName_Some)
  qed
  show "findSymbolInFile [fd_Name x] fd = Inr (Some (DField x))" if "x \<in> set (fl_Extensions fd)"
  proof -
    from that have n: "fd_Name x \<in> set ?X" by simp
    with MX EX have "fd_Name x \<notin> set ?M" "fd_Name x \<notin> set ?E" by blast+
    then have "ByName md_Name (fd_Name x) (fl_Messages fd) = None"
      "ByName en_Name (fd_Name x) (fl_Enums fd) = None" by (simp_all add: ByName_None)
    then show ?thesis using that dX by (simp add: ByName_Some)
  qed
  show "findSymbolInFile [sv_Name s] fd = Inr (Some (DService s))" if "s \<in> set (fl_Services fd)"
  proof -
    from that have n: "sv_Name s \<in> set ?S" by simp
    with MS ES XS have "sv_Name s \<notin> set ?M" "sv_Name s \<notin> set ?E" "sv_Name s \<notin> set ?X"
      by blast+
    then have "ByName md_Name (sv_Name s) (fl_Messages fd) = None"
      "ByName en_Name (sv_Name s) (fl_Enums fd) = None"
      "ByName fd_Name (sv_Name s) (fl_Extensions fd) = None" by (simp_all add: ByName_None)
    then show ?thesis using that dS by (simp add: ByName_Some)
  qed
  show "findSymbolInFile [ev_Name v] fd = Inr (Some (DEnumValue v))"
    if "e \<in> set (fl_Enums fd)" "v \<in> set (en_Values e)"
  proof -
    from that have n: "ev_Name v \<in> set ?V" by (rule enumValueNames_member)
    with MV EV XV SV have "ev_Name v \<notin> set ?M" "ev_Name v \<notin> set ?E" "ev_Name v \<notin> set ?X"
      "ev_Name v \<notin> set ?S" by blast+
    then have "ByName md_Name (ev_Name v) (fl_Messages fd) = None"
      "ByName en_Name (ev_Name v) (fl_Enums fd) = None"
      "ByName fd_Name (ev_Name v) (fl_Extensions fd) = None"
      "ByName sv_Name (ev_Name v) (fl_Services fd) = None" by (simp_all add: ByName_None)
    then show ?thesis using enumValueByName_Some [OF dV that] by simp
  qed
  show "ByName sv_Name (sv_Name s) (fl_Services fd) = Some s" if "s \<in> set (fl_Services fd)"
    using that dS by (simp add: ByName_Some)
  show "ByName sv_Name (md_Name m) (fl_Services fd) = None" if "m \<in> set (fl_Messages fd)"
  proof -
    from that have "md_Name m \<in> set ?M" by simp
    with MS have "md_Name m \<notin> set ?S" by blast
    then show ?thesis by (rule ByName_None)
  qed
  show "ByName md_Name (md_Name m) (fl_Messages fd) = Some m" if "m \<in> set (fl_Messages fd)"
    using that dM by (simp add: ByName_Some)
qed

lemma fileDecls_cases:
  assumes "(p, d) \<in> set (fileDecls fd)"
  obtains
      (msg) m where "m \<in> set (fl_Messages fd)" "p = [md_Name m]" "d = DMessage m"
    | (enum) e where "e \<in> set (fl_Enums fd)" "p = [en_Name e]" "d = DEnum e"
    | (ext) x where "x \<in> set (fl_Extensions fd)" "p = [fd_Name x]" "d = DField x"
    | (svc) s where "s \<in> set (fl_Services fd)" "p = [sv_Name s]" "d = DService s"
    | (val) e v where "e \<in> set (fl_Enums fd)" "v \<in> set (en_Values e)" "p = [ev_Name v]"
        "d = DEnumValue v"
    | (meth) s mt where "s \<in> set (fl_Services fd)" "mt \<in> set (sv_Methods s)"
        "p = [sv_Name s, mt_Name mt]" "d = DMethod mt"
    | (nested) m p' where "m \<in> set (fl_Messages fd)" "(p', d) \<in> set (messageDecls m)"
        "p = md_Name m # p'"
  using assms by (auto simp: fileDecls_def enumValueDecls_def)

lemma findSymbolInFile_declared:
  assumes ok: "fileScopesOk fd" and decl: "(p, d) \<in> set (fileDecls fd)"
  shows "findSymbolInFile p fd = Inr (Some d)"
proof -
  from ok have names: "namesOk (fileScopeNames fd)"
    and mths: "list_all (\<lambda>s. namesOk (map mt_Name (sv_Methods s))) (fl_Services fd)"
    and msgs: "list_all messageScopesOk (fl_Messages fd)"
    by (simp_all add: fileScopesOk_def)
  note dir = findSymbolInFile_direct [OF names]
  from decl show ?thesis
  proof (cases rule: fileDecls_cases)
    case (msg m)
    then show ?thesis using dir(1) [of m] by simp
  next
    case (enum e)
    then show ?thesis using dir(2) [of e] by simp
  next
    case (ext x)
    then show ?thesis using dir(3) [of x] by simp
  next
    case (svc s)
    then show ?thesis using dir(4) [of s] by simp
  next
    case (val e v)
    then show ?thesis using dir(5) [of e v] by simp
  next
    case (meth s mt)
    from meth(1) mths have "distinct (map mt_Name (sv_Methods s))"
      by (simp add: list_all_iff namesOk_def)
    with meth(2) have "ByName mt_Name (mt_Name mt) (sv_Methods s) = Some mt"
      by (simp add: ByName_Some)
    then show ?thesis using dir(6) [OF meth(1)] meth(3,4) by simp
  next
    case (nested m p')
    from nested(1) msgs have mok: "messageScopesOk m" by (simp add: list_all_iff)
    have found: "findSymbolInMessage p' m = Inr (Some d)"
      using mok nested(2) by (rule findSymbolInMessage_declared)
    have "p' \<noteq> []" using nested(2) by (rule messageDecls_nonempty)
    then obtain second rest where p': "p' = second # rest" by (cases p') auto
    show ?thesis
      using found dir(7) [OF nested(1)] dir(8) [OF nested(1)]
      unfolding nested(3) p' by (auto simp del: findSymbolInMessage.simps)
  qed
qed

lemma fileDecls_path:
  assumes ok: "fileScopesOk fd" and decl: "(p, d) \<in> set (fileDecls fd)"
  shows "p \<noteq> [] \<and> list_all (\<lambda>n. CHR ''.'' \<notin> set n) p"
proof -
  from ok have names: "list_all (\<lambda>n. CHR ''.'' \<notin> set n) (fileScopeNames fd)"
    and mths: "list_all (\<lambda>s. namesOk (map mt_Name (sv_Methods s))) (fl_Services fd)"
    and msgs: "list_all messageScopesOk (fl_Messages fd)"
    by (simp_all add: fileScopesOk_def namesOk_def)
  have top: "CHR ''.'' \<notin> set n" if "n \<in> set (fileScopeNames fd)" for n
    using names that by (simp add: list_all_iff)
  from decl show ?thesis
  proof (cases rule: fileDecls_cases)
    case (msg m)
    then show ?thesis using top [of "md_Name m"] by (simp add: fileScopeNames_def)
  next
    case (enum e)
    then show ?thesis using top [of "en_Name e"] by (simp add: fileScopeNames_def)
  next
    case (ext x)
    then show ?thesis using top [of "fd_Name x"] by (simp add: fileScopeNames_def)
  next
    case (svc s)
    then show ?thesis using top [of "sv_Name s"] by (simp add: fileScopeNames_def)
  next
    case (val e v)
    then have "ev_Name v \<in> set (enumValueNames (fl_Enums fd))"
      by (simp add: enumValueNames_member)
    then show ?thesis using top [of "ev_Name v"] val by (simp add: fileScopeNames_def)
  next
    case (meth s mt)
    from meth(1,2) mths have "CHR ''.'' \<notin> set (mt_Name mt)"
      by (auto simp: list_all_iff namesOk_def)
    then show ?thesis using top [of "sv_Name s"] meth by (simp add: fileScopeNames_def)
  next
    case (nested m p')
    from nested(1) msgs have mok: "messageScopesOk m" by (simp add: list_all_iff)
    have "list_all (\<lambda>n. CHR ''.'' \<notin> set n) p'"
      using mok nested(2) by (rule messageDecls_dotfree)
    then show ?thesis using top [of "md_Name m"] nested by (simp add: fileScopeNames_def)
  qed
qed

lemma FindDescriptorByNameInFile_qualifiedName:
  assumes p: "p \<noteq> []" "list_all (\<lambda>n. CHR ''.'' \<notin> set n) p"
  shows "FindDescriptorByNameInFile fd (qualifiedName (fl_Package fd) p) = findSymbolInFile p fd"
proof (cases "fl_Package fd = []")
  case True
  then show ?thesis
    using p by (simp add: FindDescriptorByNameInFile_def qualifiedName_def Split_Join)
next
  case False
  let ?pre = "fl_Package fd @ ''.''"
  have "TrimPrefix (?pre @ Join p) ?pre = Join p"
    unfolding TrimPrefix_def by simp
  moreover have "Join p \<noteq> ?pre @ Join p" by simp
  ultimately show ?thesis
    using False p
    by (simp add: FindDescriptorByNameInFile_def qualifiedName_def Split_Join Let_def)
qed

lemma FindDescriptorByNameInFile_other_package:
  "fl_Package fd \<noteq> [] \<Longrightarrow> \<not> prefix (fl_Package fd @ ''.'') symbol \<Longrightarrow>
     FindDescriptorByNameInFile fd symbol = Inr None"
  by (simp add: FindDescriptorByNameInFile_def TrimPrefix_def)


subsection \<open>The lookup returns what is declared\<close>

text \<open>
  C2. In a file whose scopes declare distinct, dot-free names and whose descriptors
  carry the full name of their place (package, then the path of names), looking up
  the full name of any declared descriptor returns that descriptor: messages at any
  depth, fields, oneofs, enums, enum values (named in the scope of their enum),
  extensions, services and methods. A name that does not start with the package of the
  file followed by a dot gives nil, whatever the file contains.
\<close>

theorem FindDescriptorByNameInFile_declared:
  "(wellFormedFile file \<and> (p, d) \<in> set (fileDecls file) \<longrightarrow>
      FindDescriptorByNameInFile file (FullName d) = Inr (Some d))
   \<and> (fl_Package file \<noteq> [] \<and> \<not> prefix (fl_Package file @ ''.'') symbol \<longrightarrow>
      FindDescriptorByNameInFile file symbol = Inr None)"
proof (intro conjI impI)
  assume a: "wellFormedFile file \<and> (p, d) \<in> set (fileDecls file)"
  then have ok: "fileScopesOk file" and decl: "(p, d) \<in> set (fileDecls file)"
    and names: "list_all (\<lambda>(p, d). FullName d = qualifiedName (fl_Package file) p) (fileDecls file)"
    by (simp_all add: wellFormedFile_def)
  from names decl have full: "FullName d = qualifiedName (fl_Package file) p"
    by (auto simp: list_all_iff)
  from fileDecls_path [OF ok decl] have path: "p \<noteq> []" "list_all (\<lambda>n. CHR ''.'' \<notin> set n) p"
    by simp_all
  show "FindDescriptorByNameInFile file (FullName d) = Inr (Some d)"
    unfolding full FindDescriptorByNameInFile_qualifiedName [OF path]
    using ok decl by (rule findSymbolInFile_declared)
next
  assume "fl_Package file \<noteq> [] \<and> \<not> prefix (fl_Package file @ ''.'') symbol"
  then show "FindDescriptorByNameInFile file symbol = Inr None"
    by (simp add: FindDescriptorByNameInFile_other_package)
qed

theorem FindDescriptorByNameInFile_declared_witness:
  "wellFormedFile ex_file3
   \<and> ([''M'', ''N''], DMessage (MessageDescriptor ''N'' ''p.M.N''
          [FieldDescriptor ''v'' ''p.M.N.v'' 1 False ''p.M.N''] [] [] [] []))
       \<in> set (fileDecls ex_file3)
   \<and> FindDescriptorByNameInFile ex_file3 ''p.M.N'' =
       Inr (Some (DMessage (MessageDescriptor ''N'' ''p.M.N''
          [FieldDescriptor ''v'' ''p.M.N.v'' 1 False ''p.M.N''] [] [] [] [])))
   \<and> fl_Package ex_file3 \<noteq> [] \<and> \<not> prefix (fl_Package ex_file3 @ ''.'') ''q.M''
   \<and> FindDescriptorByNameInFile ex_file3 ''q.M'' = Inr None"
proof -
  let ?N = "MessageDescriptor ''N'' ''p.M.N''
          [FieldDescriptor ''v'' ''p.M.N.v'' 1 False ''p.M.N''] [] [] [] []"
  have h1: "wellFormedFile ex_file3" by code_simp
  have h2: "([''M'', ''N''], DMessage ?N) \<in> set (fileDecls ex_file3)" by code_simp
  have h3: "fl_Package ex_file3 \<noteq> [] \<and> \<not> prefix (fl_Package ex_file3 @ ''.'') ''q.M''"
    by (simp add: ex_file3_def)
  note t = FindDescriptorByNameInFile_declared [of ex_file3 "[''M'', ''N'']" "DMessage ?N" "''q.M''"]
  have r1: "FindDescriptorByNameInFile ex_file3 (FullName (DMessage ?N)) = Inr (Some (DMessage ?N))"
    using t [THEN conjunct1, THEN mp, OF conjI, OF h1 h2] .
  have r2: "FindDescriptorByNameInFile ex_file3 ''q.M'' = Inr None"
    using t [THEN conjunct2, THEN mp, OF h3] .
  from r1 have r1': "FindDescriptorByNameInFile ex_file3 ''p.M.N'' = Inr (Some (DMessage ?N))"
    by simp
  show ?thesis
    by (intro conjI h1 h2 r1' h3 [THEN conjunct1] h3 [THEN conjunct2] r2)
qed

section \<open>The wire codec (package codec)\<close>

text \<open>
  The package \<^verbatim>\<open>codec\<close> (its \<^verbatim>\<open>Buffer\<close> reads and writes the primitives of the wire
  format) is not among the sources. A \<^verbatim>\<open>Buffer\<close> that is read is modelled by the bytes
  not yet consumed: a reader returns the value and the bytes left, or an error. A writer
  returns the bytes it appends.
\<close>

type_synonym byte = "8 word"

datatype error =
    ErrUnexpectedEOF
  | ErrOverflow
  | ErrBadByteLength
  | ErrTagOutOfRange
  | ErrInternalBadWireType
  | NumericOverflowError
  | Errorf string
  | ValidationError string
  | ExternalError string

text \<open>The wire types (\<^verbatim>\<open>int8\<close> constants of package \<^verbatim>\<open>proto\<close>).\<close>

definition WireVarint :: "8 word" where "WireVarint = 0"
definition WireFixed64 :: "8 word" where "WireFixed64 = 1"
definition WireBytes :: "8 word" where "WireBytes = 2"
definition WireStartGroup :: "8 word" where "WireStartGroup = 3"
definition WireEndGroup :: "8 word" where "WireEndGroup = 4"
definition WireFixed32 :: "8 word" where "WireFixed32 = 5"

lemmas wire_defs =
  WireVarint_def WireFixed64_def WireBytes_def WireStartGroup_def WireEndGroup_def WireFixed32_def

text \<open>
  Modelled from the spec: \<^verbatim>\<open>Buffer.DecodeVarint\<close>, the reader of a base-128 varint of
  the standard wire format (section 6 of the specification): seven bits per byte, least
  significant group first, the high bit of a byte set when another byte follows, at most
  ten bytes. Input that ends in the middle is a truncated varint (unexpected end of
  input); ten bytes that all announce another one do not fit 64 bits.
\<close>

fun decodeVarint_loop :: "nat \<Rightarrow> 64 word \<Rightarrow> byte list \<Rightarrow> error + (64 word \<times> byte list)" where
  "decodeVarint_loop shift x [] = (if shift < 64 then Inl ErrUnexpectedEOF else Inl ErrOverflow)"
| "decodeVarint_loop shift x (b # rest) =
     (if shift < 64
      then (let x' = x OR push_bit shift (ucast b AND 0x7F)
            in if b < 0x80 then Inr (x', rest) else decodeVarint_loop (shift + 7) x' rest)
      else Inl ErrOverflow)"

definition DecodeVarint :: "byte list \<Rightarrow> error + (64 word \<times> byte list)" where
  "DecodeVarint buf = decodeVarint_loop 0 0 buf"

text \<open>
  Modelled from the spec: \<^verbatim>\<open>Buffer.EncodeVarint\<close>, the writer of a varint in its
  shortest form.
\<close>

lemma drop_bit_7_less: "(0x80 :: 64 word) \<le> x \<Longrightarrow> unat (drop_bit 7 x) < unat x"
proof -
  assume "(0x80 :: 64 word) \<le> x"
  then have pos: "0 < unat x" by (simp add: word_le_nat_alt)
  have "unat (drop_bit 7 x) = unat x div 2 ^ 7"
    unfolding unat_drop_bit_eq by (rule drop_bit_eq_div)
  with pos show ?thesis by simp
qed

function EncodeVarint :: "64 word \<Rightarrow> byte list" where
  "EncodeVarint x =
     (if 0x80 \<le> x then ucast (x AND 0x7F OR 0x80) # EncodeVarint (drop_bit 7 x)
      else [ucast x])"
  by pat_completeness auto
termination
  by (relation "measure unat") (auto simp: drop_bit_7_less)

declare EncodeVarint.simps [simp del]

text \<open>
  Modelled from the spec: the readers and writers of the fixed-width little-endian
  values, \<^verbatim>\<open>DecodeFixed32\<close>, \<^verbatim>\<open>DecodeFixed64\<close>, \<^verbatim>\<open>EncodeFixed32\<close> and
  \<^verbatim>\<open>EncodeFixed64\<close>. The value read or written is a \<^verbatim>\<open>uint64\<close>.
\<close>

fun DecodeFixed32 :: "byte list \<Rightarrow> error + (64 word \<times> byte list)" where
  "DecodeFixed32 (b0 # b1 # b2 # b3 # rest) =
     Inr (ucast b0 OR push_bit 8 (ucast b1) OR push_bit 16 (ucast b2) OR push_bit 24 (ucast b3),
          rest)"
| "DecodeFixed32 _ = Inl ErrUnexpectedEOF"

fun DecodeFixed64 :: "byte list \<Rightarrow> error + (64 word \<times> byte list)" where
  "DecodeFixed64 (b0 # b1 # b2 # b3 # b4 # b5 # b6 # b7 # rest) =
     Inr (ucast b0 OR push_bit 8 (ucast b1) OR push_bit 16 (ucast b2) OR push_bit 24 (ucast b3)
          OR push_bit 32 (ucast b4) OR push_bit 40 (ucast b5) OR push_bit 48 (ucast b6)
          OR push_bit 56 (ucast b7),
          rest)"
| "DecodeFixed64 _ = Inl ErrUnexpectedEOF"

definition EncodeFixed32 :: "64 word \<Rightarrow> byte list" where
  "EncodeFixed32 x = [ucast x, ucast (drop_bit 8 x), ucast (drop_bit 16 x), ucast (drop_bit 24 x)]"

definition EncodeFixed64 :: "64 word \<Rightarrow> byte list" where
  "EncodeFixed64 x =
     [ucast x, ucast (drop_bit 8 x), ucast (drop_bit 16 x), ucast (drop_bit 24 x),
      ucast (drop_bit 32 x), ucast (drop_bit 40 x), ucast (drop_bit 48 x), ucast (drop_bit 56 x)]"

text \<open>
  Modelled from the spec: \<^verbatim>\<open>DecodeRawBytes\<close> and \<^verbatim>\<open>EncodeRawBytes\<close>, a varint length
  followed by that many bytes. A length that is negative as a Go \<^verbatim>\<open>int\<close> is refused;
  a length beyond the input is a truncated payload. The flag of \<^verbatim>\<open>DecodeRawBytes\<close>
  asks for a copy of the bytes; values are not shared here, so it has no effect.
\<close>

definition DecodeRawBytes :: "bool \<Rightarrow> byte list \<Rightarrow> error + (byte list \<times> byte list)" where
  "DecodeRawBytes alloc buf =
     (case DecodeVarint buf of
        Inl err \<Rightarrow> Inl err
      | Inr (n, rest) \<Rightarrow>
          if sint n < 0 then Inl ErrBadByteLength
          else if length rest < unat n then Inl ErrUnexpectedEOF
          else Inr (take (unat n) rest, drop (unat n) rest))"

definition EncodeRawBytes :: "byte list \<Rightarrow> byte list" where
  "EncodeRawBytes b = EncodeVarint (of_nat (length b)) @ b"

text \<open>
  Modelled from the spec: \<^verbatim>\<open>DecodeTagAndWireType\<close> and \<^verbatim>\<open>EncodeTagAndWireType\<close>,
  the field header: a varint whose low three bits are the wire type and whose other bits
  are the tag number, an \<^verbatim>\<open>int32\<close>.
\<close>

definition DecodeTagAndWireType :: "byte list \<Rightarrow> error + ((32 word \<times> 8 word) \<times> byte list)" where
  "DecodeTagAndWireType buf =
     (case DecodeVarint buf of
        Inl err \<Rightarrow> Inl err
      | Inr (v, rest) \<Rightarrow>
          (let wireType = (ucast (v AND 7) :: 8 word);
               v' = drop_bit 3 v
           in if v' > 0x7FFFFFFF then Inl ErrTagOutOfRange
              else Inr ((ucast v', wireType), rest)))"

definition EncodeTagAndWireType :: "32 word \<Rightarrow> 8 word \<Rightarrow> byte list" where
  "EncodeTagAndWireType tag wireType =
     EncodeVarint (push_bit 3 (scast tag) OR scast wireType)"

text \<open>
  Modelled from the spec: \<^verbatim>\<open>DecodeZigZag32\<close> and \<^verbatim>\<open>DecodeZigZag64\<close>, the zigzag
  decoding of the signed varint types.
\<close>

definition DecodeZigZag32 :: "64 word \<Rightarrow> 32 word" where
  "DecodeZigZag32 v = (let w = (ucast v :: 32 word) in drop_bit 1 w XOR (- (w AND 1)))"

definition DecodeZigZag64 :: "64 word \<Rightarrow> 64 word" where
  "DecodeZigZag64 v = drop_bit 1 v XOR (- (v AND 1))"

section \<open>Dynamic messages: binary format (package dynamic)\<close>

subsection \<open>Descriptors, values and messages\<close>

datatype FieldDescriptorProto_Type =
    TYPE_DOUBLE | TYPE_FLOAT | TYPE_INT64 | TYPE_UINT64 | TYPE_INT32 | TYPE_FIXED64
  | TYPE_FIXED32 | TYPE_BOOL | TYPE_STRING | TYPE_GROUP | TYPE_MESSAGE | TYPE_BYTES
  | TYPE_UINT32 | TYPE_ENUM | TYPE_SFIXED32 | TYPE_SFIXED64 | TYPE_SINT32 | TYPE_SINT64

text \<open>
  A \<^verbatim>\<open>*desc.FieldDescriptor\<close>, by the values of the methods the codec calls.
  \<open>'md\<close> is the type of message descriptors (\<^verbatim>\<open>*desc.MessageDescriptor\<close>), which the
  codec only passes on. \<open>IsPacked\<close> is the packing declaration of the field; the decoder
  never reads it.
\<close>

record 'md desc_FieldDescriptor =
  GetNumber :: "32 word"
  GetFullyQualifiedName :: string
  GetType :: FieldDescriptorProto_Type
  IsRepeated :: bool
  IsPacked :: bool
  GetMessageType :: "'md option"

text \<open>
  \<^verbatim>\<open>UnknownField\<close>: one occurrence of a tag the descriptor does not declare. A field
  that a composite literal does not set has the zero value.
\<close>

record UnknownField =
  Encoding :: "8 word"
  Contents :: "byte list"
  Value :: "64 word"

text \<open>
  A Go value of type \<^verbatim>\<open>interface{}\<close> as the codec produces and stores it. A
  \<^verbatim>\<open>float32\<close> or \<^verbatim>\<open>float64\<close> is represented by its IEEE bit pattern
  (\<^verbatim>\<open>math.Float32frombits\<close> is a bijection on bit patterns). A \<^verbatim>\<open>proto.Message\<close> is
  a dynamic \<^verbatim>\<open>*Message\<close> or a message of a generated type, of which nothing is known
  here (\<open>'g\<close>). In a \<^verbatim>\<open>*Message\<close>, the maps \<^verbatim>\<open>values\<close> and \<^verbatim>\<open>unknownFields\<close>
  are association lists read with \<open>map_of\<close>.
\<close>

datatype ('md, 'g) val =
    VNil
  | VBool bool
  | VUint32 "32 word"
  | VInt32 "32 word"
  | VUint64 "64 word"
  | VInt64 "64 word"
  | VFloat32 "32 word"
  | VFloat64 "64 word"
  | VBytes "byte list"
  | VString "byte list"
  | VSlice "('md, 'g) val list"
  | VMap "(('md, 'g) val \<times> ('md, 'g) val) list"
  | VMessage "('md, 'g) proto_Message"
and ('md, 'g) proto_Message =
    Dynamic "('md, 'g) Message"
  | Generated 'g
and ('md, 'g) Message =
    Message (m_md: 'md) (m_values: "(32 word \<times> ('md, 'g) val) list")
      (m_unknownFields: "(32 word \<times> UnknownField list) list")

text \<open>Indexing a Go map: a missing key gives the zero value (nil).\<close>

definition valueAt :: "('md, 'g) Message \<Rightarrow> 32 word \<Rightarrow> ('md, 'g) val" where
  "valueAt m itag = (case map_of (m_values m) itag of None \<Rightarrow> VNil | Some v \<Rightarrow> v)"

definition unknownAt :: "('md, 'g) Message \<Rightarrow> 32 word \<Rightarrow> UnknownField list" where
  "unknownAt m itag = (case map_of (m_unknownFields m) itag of None \<Rightarrow> [] | Some sl \<Rightarrow> sl)"

text \<open>
  What \<^verbatim>\<open>binary.go\<close> calls and the sources do not contain: methods of \<^verbatim>\<open>*Message\<close>
  defined in another file (\<^verbatim>\<open>FindFieldDescriptor\<close>, \<^verbatim>\<open>knownFieldTags\<close>,
  \<^verbatim>\<open>unknownFieldTags\<close>, \<^verbatim>\<open>Validate\<close>), the function \<^verbatim>\<open>mergeField\<close>, the message
  factory \<^verbatim>\<open>m.mf\<close>, \<^verbatim>\<open>proto.Unmarshal\<close>, and the encoders of known field values
  (\<^verbatim>\<open>EncodeFieldValue\<close>, with a flag for \<^verbatim>\<open>EncodeFieldValueDeterministic\<close>). They are
  parameters of the model. \<^verbatim>\<open>FindFieldDescriptor\<close> is a function of the descriptor of
  the message: its declared fields and the extensions known for it.
\<close>

record ('md, 'g) externals =
  FindFieldDescriptor :: "'md \<Rightarrow> 32 word \<Rightarrow> 'md desc_FieldDescriptor option"
  NewMessage :: "'md option \<Rightarrow> ('md, 'g) proto_Message"
  protoUnmarshal :: "byte list \<Rightarrow> ('md, 'g) proto_Message \<Rightarrow> error + ('md, 'g) proto_Message"
  mergeField ::
    "('md, 'g) Message \<Rightarrow> 'md desc_FieldDescriptor \<Rightarrow> ('md, 'g) val \<Rightarrow> error + ('md, 'g) Message"
  knownFieldTags :: "('md, 'g) Message \<Rightarrow> int list"
  unknownFieldTags :: "('md, 'g) Message \<Rightarrow> int list"
  EncodeFieldValue ::
    "bool \<Rightarrow> 'md desc_FieldDescriptor \<Rightarrow> ('md, 'g) val \<Rightarrow> error + byte list"
  Validate :: "('md, 'g) Message \<Rightarrow> error option"

text \<open>
  Modelled from the spec: \<^verbatim>\<open>Reset\<close> (section 3: a message is cleared by Reset), which
  empties the known values and the unknown fields and keeps the descriptor.
\<close>

definition Reset :: "('md, 'g) Message \<Rightarrow> ('md, 'g) Message" where
  "Reset m = Message (m_md m) [] []"

text \<open>
  Modelled from the spec: the tables \<^verbatim>\<open>varintTypes\<close>, \<^verbatim>\<open>fixed32Types\<close> and
  \<^verbatim>\<open>fixed64Types\<close> (section 4.5: a packed payload is read as varints, fixed32s or
  fixed64s per the declared type), with the wire encodings of the standard format.
\<close>

definition varintTypes :: "FieldDescriptorProto_Type \<Rightarrow> bool" where
  "varintTypes t \<longleftrightarrow> t \<in> {TYPE_BOOL, TYPE_INT32, TYPE_INT64, TYPE_UINT32, TYPE_UINT64,
                            TYPE_SINT32, TYPE_SINT64, TYPE_ENUM}"

definition fixed32Types :: "FieldDescriptorProto_Type \<Rightarrow> bool" where
  "fixed32Types t \<longleftrightarrow> t \<in> {TYPE_FIXED32, TYPE_SFIXED32, TYPE_FLOAT}"

definition fixed64Types :: "FieldDescriptorProto_Type \<Rightarrow> bool" where
  "fixed64Types t \<longleftrightarrow> t \<in> {TYPE_FIXED64, TYPE_SFIXED64, TYPE_DOUBLE}"

subsection \<open>Reading a group\<close>

text \<open>
  Modelled from the spec: \<^verbatim>\<open>Buffer.ReadGroup\<close> (section 4.5: the raw group bytes are
  captured up to the matching group-end marker). It skips whole fields, counting the
  groups that open inside, and returns the bytes before the matching end marker and
  the input after it. The flag asks for a copy, as for \<^verbatim>\<open>DecodeRawBytes\<close>.
\<close>

definition skipFieldValue :: "8 word \<Rightarrow> byte list \<Rightarrow> error + byte list" where
  "skipFieldValue wireType buf =
     (if wireType = WireFixed32
      then (if length buf < 4 then Inl ErrUnexpectedEOF else Inr (drop 4 buf))
      else if wireType = WireFixed64
      then (if length buf < 8 then Inl ErrUnexpectedEOF else Inr (drop 8 buf))
      else if wireType = WireVarint
      then (case DecodeVarint buf of Inl err \<Rightarrow> Inl err | Inr (_, rest) \<Rightarrow> Inr rest)
      else if wireType = WireBytes
      then (case DecodeRawBytes False buf of Inl err \<Rightarrow> Inl err | Inr (_, rest) \<Rightarrow> Inr rest)
      else Inl ErrInternalBadWireType)"

definition groupStep :: "nat \<Rightarrow> 8 word \<Rightarrow> byte list \<Rightarrow> error + (nat \<times> byte list)" where
  "groupStep depth wireType buf =
     (if wireType = WireEndGroup then Inr (depth - 1, buf)
      else if wireType = WireStartGroup then Inr (depth + 1, buf)
      else (case skipFieldValue wireType buf of
              Inl err \<Rightarrow> Inl err
            | Inr rest \<Rightarrow> Inr (depth, rest)))"

lemma decodeVarint_loop_shorter:
  "decodeVarint_loop shift x buf = Inr (v, rest) \<Longrightarrow> length rest < length buf"
proof (induction buf arbitrary: shift x)
  case Nil
  then show ?case by (simp split: if_splits)
next
  case (Cons b buf)
  show ?case
  proof (cases "shift < 64 \<and> \<not> b < 0x80")
    case True
    with Cons.prems have "decodeVarint_loop (shift + 7)
        (x OR push_bit shift (ucast b AND 0x7F)) buf = Inr (v, rest)"
      by (simp add: Let_def)
    then have "length rest < length buf" by (rule Cons.IH)
    then show ?thesis by simp
  next
    case False
    with Cons.prems show ?thesis by (auto simp: Let_def split: if_splits)
  qed
qed

lemma DecodeVarint_shorter: "DecodeVarint buf = Inr (v, rest) \<Longrightarrow> length rest < length buf"
  unfolding DecodeVarint_def by (rule decodeVarint_loop_shorter)

lemma DecodeTagAndWireType_shorter:
  "DecodeTagAndWireType buf = Inr (tw, rest) \<Longrightarrow> length rest < length buf"
  by (auto simp: DecodeTagAndWireType_def Let_def split: sum.splits if_splits
        dest: DecodeVarint_shorter)

lemma DecodeRawBytes_shorter:
  "DecodeRawBytes alloc buf = Inr (bs, rest) \<Longrightarrow> length rest < length buf"
  by (auto simp: DecodeRawBytes_def split: sum.splits if_splits dest!: DecodeVarint_shorter)

lemma DecodeFixed32_shorter: "DecodeFixed32 buf = Inr (v, rest) \<Longrightarrow> length rest < length buf"
  by (induction buf rule: DecodeFixed32.induct) auto

lemma DecodeFixed64_shorter: "DecodeFixed64 buf = Inr (v, rest) \<Longrightarrow> length rest < length buf"
  by (induction buf rule: DecodeFixed64.induct) auto

lemma skipFieldValue_shorter: "skipFieldValue wt buf = Inr rest \<Longrightarrow> length rest \<le> length buf"
  by (auto simp: skipFieldValue_def split: if_splits sum.splits
        dest!: DecodeVarint_shorter DecodeRawBytes_shorter)

lemma groupStep_shorter: "groupStep d wt buf = Inr (d', rest) \<Longrightarrow> length rest \<le> length buf"
  by (auto simp: groupStep_def split: if_splits sum.splits dest: skipFieldValue_shorter)

function findGroupEnd :: "nat \<Rightarrow> byte list \<Rightarrow> error + (byte list \<times> byte list)" where
  "findGroupEnd depth buf =
     (case DecodeTagAndWireType buf of
        Inl err \<Rightarrow> Inl err
      | Inr ((tag, wireType), r1) \<Rightarrow>
          if wireType = WireEndGroup \<and> depth = 0 then Inr ([], r1)
          else (case groupStep depth wireType r1 of
                  Inl err \<Rightarrow> Inl err
                | Inr (depth', r2) \<Rightarrow>
                    (case findGroupEnd depth' r2 of
                       Inl err \<Rightarrow> Inl err
                     | Inr (data, rest) \<Rightarrow>
                         Inr (take (length buf - length r2) buf @ data, rest))))"
  by pat_completeness auto
termination
proof (relation "measure (\<lambda>(depth, buf). length buf)")
  show "wf (measure (\<lambda>(depth, buf). length buf))" by simp
next
  fix depth :: nat and buf :: "byte list" and x2 x1 r1 tag wireType x2a depth' r2
  assume "DecodeTagAndWireType buf = Inr x2" "(x1, r1) = x2" "(tag, wireType) = x1"
    and "groupStep depth wireType r1 = Inr x2a" "(depth', r2) = x2a"
  then have "length r1 < length buf" "length r2 \<le> length r1"
    by (auto dest: DecodeTagAndWireType_shorter groupStep_shorter)
  then show "((depth', r2), depth, buf) \<in> measure (\<lambda>(depth, buf). length buf)" by simp
qed

declare findGroupEnd.simps [simp del]

definition ReadGroup :: "bool \<Rightarrow> byte list \<Rightarrow> error + (byte list \<times> byte list)" where
  "ReadGroup alloc buf = findGroupEnd 0 buf"

subsection \<open>Decoding\<close>

definition unmarshalSimpleField ::
  "'md desc_FieldDescriptor \<Rightarrow> 64 word \<Rightarrow> error + ('md, 'g) val" where
  "unmarshalSimpleField fd v =
     (case GetType fd of
        TYPE_BOOL \<Rightarrow> Inr (VBool (v \<noteq> 0))
      | TYPE_UINT32 \<Rightarrow>
          if v > 0xFFFFFFFF then Inl NumericOverflowError else Inr (VUint32 (ucast v))
      | TYPE_FIXED32 \<Rightarrow>
          if v > 0xFFFFFFFF then Inl NumericOverflowError else Inr (VUint32 (ucast v))
      | TYPE_INT32 \<Rightarrow>
          if sint v > 2147483647 \<or> sint v < - 2147483648 then Inl NumericOverflowError
          else Inr (VInt32 (ucast v))
      | TYPE_ENUM \<Rightarrow>
          if sint v > 2147483647 \<or> sint v < - 2147483648 then Inl NumericOverflowError
          else Inr (VInt32 (ucast v))
      | TYPE_SFIXED32 \<Rightarrow>
          if v > 0xFFFFFFFF then Inl NumericOverflowError else Inr (VInt32 (ucast v))
      | TYPE_SINT32 \<Rightarrow>
          if v > 0xFFFFFFFF then Inl NumericOverflowError else Inr (VInt32 (DecodeZigZag32 v))
      | TYPE_UINT64 \<Rightarrow> Inr (VUint64 v)
      | TYPE_FIXED64 \<Rightarrow> Inr (VUint64 v)
      | TYPE_INT64 \<Rightarrow> Inr (VInt64 v)
      | TYPE_SFIXED64 \<Rightarrow> Inr (VInt64 v)
      | TYPE_SINT64 \<Rightarrow> Inr (VInt64 (DecodeZigZag64 v))
      | TYPE_FLOAT \<Rightarrow>
          if v > 0xFFFFFFFF then Inl NumericOverflowError else Inr (VFloat32 (ucast v))
      | TYPE_DOUBLE \<Rightarrow> Inr (VFloat64 v)
      | _ \<Rightarrow>
          Inl (Errorf (''bad input; field '' @ GetFullyQualifiedName fd
                 @ '' requires length-delimited wire type'')))"

text \<open>
  The loop of \<open>unmarshalLengthDelimitedField\<close> over a packed payload: \<open>slice'\<close> and
  \<open>val\<close> are its two variables, \<open>buf\<close> is what \<^verbatim>\<open>packedBuf\<close> has left.
\<close>

definition packedRead ::
  "'md desc_FieldDescriptor \<Rightarrow> byte list \<Rightarrow> error + (64 word \<times> byte list)" where
  "packedRead fd buf =
     (if varintTypes (GetType fd) then DecodeVarint buf
      else if fixed32Types (GetType fd) then DecodeFixed32 buf
      else if fixed64Types (GetType fd) then DecodeFixed64 buf
      else Inl (Errorf (''bad input; cannot parse length-delimited wire type for field ''
                  @ GetFullyQualifiedName fd)))"

lemma packedRead_shorter: "packedRead fd buf = Inr (v, rest) \<Longrightarrow> length rest < length buf"
  by (auto simp: packedRead_def split: if_splits
        dest: DecodeVarint_shorter DecodeFixed32_shorter DecodeFixed64_shorter)

function packedLoop ::
  "'md desc_FieldDescriptor \<Rightarrow> ('md, 'g) val list \<Rightarrow> ('md, 'g) val \<Rightarrow> byte list
     \<Rightarrow> error + (('md, 'g) val list \<times> ('md, 'g) val)" where
  "packedLoop fd slice' val buf =
     (if buf = [] then Inr (slice', val)
      else (case packedRead fd buf of
              Inl err \<Rightarrow> Inl err
            | Inr (v, rest) \<Rightarrow>
                (case unmarshalSimpleField fd v of
                   Inl err \<Rightarrow> Inl err
                 | Inr val' \<Rightarrow>
                     packedLoop fd (if IsRepeated fd then slice' @ [val'] else slice') val' rest)))"
  by pat_completeness auto
termination
  by (relation "measure (\<lambda>(fd, slice', val, buf). length buf)")
     (auto dest: packedRead_shorter)

declare packedLoop.simps [simp del]

definition unmarshalLengthDelimitedField ::
  "('md, 'g) externals \<Rightarrow> 'md desc_FieldDescriptor \<Rightarrow> byte list \<Rightarrow> error + ('md, 'g) val" where
  "unmarshalLengthDelimitedField mf fd bytes =
     (if GetType fd = TYPE_BYTES then Inr (VBytes bytes)
      else if GetType fd = TYPE_STRING then Inr (VString bytes)
      else if GetType fd = TYPE_MESSAGE \<or> GetType fd = TYPE_GROUP
      then (let msg = NewMessage mf (GetMessageType fd)
            in case protoUnmarshal mf bytes msg of
                 Inl err \<Rightarrow> Inl err
               | Inr msg' \<Rightarrow> Inr (VMessage msg'))
      else (case packedLoop fd [] VNil bytes of
              Inl err \<Rightarrow> Inl err
            | Inr (slice', val) \<Rightarrow>
                if IsRepeated fd then Inr (VSlice slice') else Inr val))"

definition unmarshalUnknownField ::
  "('md, 'g) Message \<Rightarrow> 32 word \<Rightarrow> 8 word \<Rightarrow> byte list
     \<Rightarrow> error + (('md, 'g) Message \<times> byte list)" where
  "unmarshalUnknownField m tagNumber encoding b =
     (let u = \<lparr> Encoding = encoding, Contents = [], Value = 0 \<rparr>;
          r = (if encoding = WireFixed32
               then (case DecodeFixed32 b of
                       Inl err \<Rightarrow> Inl err | Inr (v, b') \<Rightarrow> Inr (u\<lparr>Value := v\<rparr>, b'))
               else if encoding = WireFixed64
               then (case DecodeFixed64 b of
                       Inl err \<Rightarrow> Inl err | Inr (v, b') \<Rightarrow> Inr (u\<lparr>Value := v\<rparr>, b'))
               else if encoding = WireVarint
               then (case DecodeVarint b of
                       Inl err \<Rightarrow> Inl err | Inr (v, b') \<Rightarrow> Inr (u\<lparr>Value := v\<rparr>, b'))
               else if encoding = WireBytes
               then (case DecodeRawBytes True b of
                       Inl err \<Rightarrow> Inl err | Inr (c, b') \<Rightarrow> Inr (u\<lparr>Contents := c\<rparr>, b'))
               else if encoding = WireStartGroup
               then (case ReadGroup True b of
                       Inl err \<Rightarrow> Inl err | Inr (c, b') \<Rightarrow> Inr (u\<lparr>Contents := c\<rparr>, b'))
               else Inl ErrInternalBadWireType)
      in case r of
           Inl err \<Rightarrow> Inl err
         | Inr (u', b') \<Rightarrow>
             Inr (Message (m_md m) (m_values m)
                    (AList.update tagNumber (unknownAt m tagNumber @ [u']) (m_unknownFields m)),
                  b'))"

text \<open>
  \<open>unmarshal\<close> and \<open>unmarshalKnownField\<close>, which call each other for a group of a
  dynamic message type. Both take the buffer and the message and return them.
  In the branch of \<open>unmarshalKnownField\<close> for a group of a generated type, the source
  declares \<^verbatim>\<open>data, err := b.ReadGroup(false)\<close> in the inner block: this \<^verbatim>\<open>err\<close> is a
  new variable, so an error of \<^verbatim>\<open>ReadGroup\<close> or of \<^verbatim>\<open>proto.Unmarshal\<close> there leaves
  the \<^verbatim>\<open>err\<close> of the function nil and \<^verbatim>\<open>val\<close> nil.
\<close>

function unmarshal ::
    "('md, 'g) externals \<Rightarrow> byte list \<Rightarrow> bool \<Rightarrow> ('md, 'g) Message
       \<Rightarrow> error + (('md, 'g) Message \<times> byte list)"
  and unmarshalKnownField ::
    "('md, 'g) externals \<Rightarrow> ('md, 'g) Message \<Rightarrow> 'md desc_FieldDescriptor \<Rightarrow> 8 word \<Rightarrow> byte list
       \<Rightarrow> error + (('md, 'g) Message \<times> byte list)"
where
  "unmarshal ext buf isGroup m =
     (if buf = [] then (if isGroup then Inl ErrUnexpectedEOF else Inr (m, buf))
      else (case DecodeTagAndWireType buf of
              Inl err \<Rightarrow> Inl err
            | Inr ((tagNumber, wireType), buf') \<Rightarrow>
                if wireType = WireEndGroup
                then (if isGroup then Inr (m, buf') else Inl ErrInternalBadWireType)
                else (case FindFieldDescriptor ext (m_md m) tagNumber of
                        None \<Rightarrow>
                          (case unmarshalUnknownField m tagNumber wireType buf' of
                             Inl err \<Rightarrow> Inl err
                           | Inr (m', buf'') \<Rightarrow> unmarshal ext buf'' isGroup m')
                      | Some fd \<Rightarrow>
                          (case unmarshalKnownField ext m fd wireType buf' of
                             Inl err \<Rightarrow> Inl err
                           | Inr (m', buf'') \<Rightarrow> unmarshal ext buf'' isGroup m'))))"
| "unmarshalKnownField ext m fd encoding b =
     (case
        (if encoding = WireFixed32
         then (case DecodeFixed32 b of
                 Inl err \<Rightarrow> Inl err
               | Inr (num, b') \<Rightarrow>
                   (case unmarshalSimpleField fd num of
                      Inl err \<Rightarrow> Inl err | Inr val \<Rightarrow> Inr (val, b')))
         else if encoding = WireFixed64
         then (case DecodeFixed64 b of
                 Inl err \<Rightarrow> Inl err
               | Inr (num, b') \<Rightarrow>
                   (case unmarshalSimpleField fd num of
                      Inl err \<Rightarrow> Inl err | Inr val \<Rightarrow> Inr (val, b')))
         else if encoding = WireVarint
         then (case DecodeVarint b of
                 Inl err \<Rightarrow> Inl err
               | Inr (num, b') \<Rightarrow>
                   (case unmarshalSimpleField fd num of
                      Inl err \<Rightarrow> Inl err | Inr val \<Rightarrow> Inr (val, b')))
         else if encoding = WireBytes
         then (if GetType fd = TYPE_BYTES
               then (case DecodeRawBytes True b of
                       Inl err \<Rightarrow> Inl err | Inr (raw, b') \<Rightarrow> Inr (VBytes raw, b'))
               else if GetType fd = TYPE_STRING
               then (case DecodeRawBytes True b of
                       Inl err \<Rightarrow> Inl err | Inr (raw, b') \<Rightarrow> Inr (VString raw, b'))
               else (case DecodeRawBytes False b of
                       Inl err \<Rightarrow> Inl err
                     | Inr (raw, b') \<Rightarrow>
                         (case unmarshalLengthDelimitedField ext fd raw of
                            Inl err \<Rightarrow> Inl err | Inr val \<Rightarrow> Inr (val, b'))))
         else if encoding = WireStartGroup
         then (if GetMessageType fd = None
               then Inl (Errorf (''cannot parse field '' @ GetFullyQualifiedName fd
                           @ '' from group-encoded wire type''))
               else (case NewMessage ext (GetMessageType fd) of
                       Dynamic dm \<Rightarrow>
                         (case unmarshal ext b True dm of
                            Inl err \<Rightarrow> Inl err
                          | Inr (dm', b') \<Rightarrow> Inr (VMessage (Dynamic dm'), b'))
                     | Generated g \<Rightarrow>
                         (case ReadGroup False b of
                            Inl err \<Rightarrow> Inr (VNil, b)
                          | Inr (data, b') \<Rightarrow>
                              (case protoUnmarshal ext data (Generated g) of
                                 Inl err \<Rightarrow> Inr (VNil, b')
                               | Inr msg' \<Rightarrow> Inr (VMessage msg', b')))))
         else Inl ErrInternalBadWireType)
      of
        Inl err \<Rightarrow> Inl err
      | Inr (val, b') \<Rightarrow>
          (case mergeField ext m fd val of
             Inl err \<Rightarrow> Inl err
           | Inr m' \<Rightarrow> Inr (m', b')))"
  by pat_completeness auto


lemma findGroupEnd_shorter:
  "findGroupEnd depth buf = Inr (data, rest) \<Longrightarrow> length rest < length buf"
proof (induction depth buf arbitrary: data rest rule: findGroupEnd.induct)
  case (1 depth buf)
  from "1.prems" obtain tag wireType r1 where
    hdr: "DecodeTagAndWireType buf = Inr ((tag, wireType), r1)"
    by (subst (asm) findGroupEnd.simps) (auto split: sum.splits)
  then have r1: "length r1 < length buf" by (rule DecodeTagAndWireType_shorter)
  show ?case
  proof (cases "wireType = WireEndGroup \<and> depth = 0")
    case True
    with "1.prems" hdr r1 show ?thesis
      by (subst (asm) findGroupEnd.simps) auto
  next
    case False
    with "1.prems" hdr obtain depth' r2 data' where
      st: "groupStep depth wireType r1 = Inr (depth', r2)"
      and rec: "findGroupEnd depth' r2 = Inr (data', rest)"
      by (subst (asm) findGroupEnd.simps) (auto split: sum.splits)
    have "length rest < length r2"
      using "1.IH" [OF hdr refl refl False st refl rec] .
    moreover have "length r2 \<le> length r1" using st by (rule groupStep_shorter)
    ultimately show ?thesis using r1 by simp
  qed
qed

lemma ReadGroup_shorter: "ReadGroup alloc buf = Inr (data, rest) \<Longrightarrow> length rest < length buf"
  unfolding ReadGroup_def by (rule findGroupEnd_shorter)

lemma unmarshalUnknownField_shorter:
  "unmarshalUnknownField m tagNumber encoding b = Inr (m', b') \<Longrightarrow> length b' < length b"
  by (auto simp: unmarshalUnknownField_def Let_def split: if_splits sum.splits
        dest: DecodeFixed32_shorter DecodeFixed64_shorter DecodeVarint_shorter
          DecodeRawBytes_shorter ReadGroup_shorter)

lemma unmarshal_dom_shorter:
  "unmarshal_unmarshalKnownField_dom (Inl (ext, buf, isGroup, m)) \<Longrightarrow>
     unmarshal ext buf isGroup m = Inr (m', r) \<Longrightarrow> length r \<le> length buf"
  "unmarshal_unmarshalKnownField_dom (Inr (ext, m, fd, encoding, b)) \<Longrightarrow>
     unmarshalKnownField ext m fd encoding b = Inr (m', r) \<Longrightarrow> length r \<le> length b"
proof (induct arbitrary: m' r and m' r rule: unmarshal_unmarshalKnownField.pinduct)
  case (1 ext buf isGroup m)
  show ?case
  proof (cases "buf = []")
    case True
    with "1.prems" "1.hyps" show ?thesis
      by (simp add: unmarshal.psimps split: if_splits)
  next
    case False
    with "1.prems" "1.hyps" obtain tagNumber wireType buf' where
      hdr: "DecodeTagAndWireType buf = Inr ((tagNumber, wireType), buf')"
      by (auto simp: unmarshal.psimps split: sum.splits)
    then have b': "length buf' < length buf" by (rule DecodeTagAndWireType_shorter)
    show ?thesis
    proof (cases "wireType = WireEndGroup")
      case True
      with "1.prems" "1.hyps" False hdr b' show ?thesis
        by (auto simp: unmarshal.psimps split: if_splits)
    next
      case notEnd: False
      show ?thesis
      proof (cases "FindFieldDescriptor ext (m_md m) tagNumber")
        case None
        with "1.prems" "1.hyps" False hdr notEnd obtain m1 buf'' where
          u: "unmarshalUnknownField m tagNumber wireType buf' = Inr (m1, buf'')"
          and rec: "unmarshal ext buf'' isGroup m1 = Inr (m', r)"
          by (auto simp: unmarshal.psimps split: sum.splits)
        have "length r \<le> length buf''"
          using "1.hyps"(2) [OF False hdr refl refl notEnd None u refl rec] .
        moreover have "length buf'' < length buf'" using u by (rule unmarshalUnknownField_shorter)
        ultimately show ?thesis using b' by simp
      next
        case (Some fd)
        with "1.prems" "1.hyps" False hdr notEnd obtain m1 buf'' where
          k: "unmarshalKnownField ext m fd wireType buf' = Inr (m1, buf'')"
          and rec: "unmarshal ext buf'' isGroup m1 = Inr (m', r)"
          by (auto simp: unmarshal.psimps split: sum.splits)
        have "length buf'' \<le> length buf'"
          using "1.hyps"(3) [OF False hdr refl refl notEnd Some k] .
        moreover have "length r \<le> length buf''"
          using "1.hyps"(4) [OF False hdr refl refl notEnd Some k refl rec] .
        ultimately show ?thesis using b' by simp
      qed
    qed
  qed
next
  case (2 ext m fd encoding b)
  from "2.prems" "2.hyps"(1) obtain val b' where
    mf: "mergeField ext m fd val = Inr m'" and rb: "r = b'"
    and br: "length b' \<le> length b \<or>
      (encoding = WireStartGroup \<and> GetMessageType fd \<noteq> None \<and>
       (\<exists>dm dm'. NewMessage ext (GetMessageType fd) = Dynamic dm \<and>
          unmarshal ext b True dm = Inr (dm', b')))"
    by (auto simp: unmarshalKnownField.psimps
          split: if_splits sum.splits proto_Message.splits
          dest!: DecodeFixed32_shorter DecodeFixed64_shorter DecodeVarint_shorter
            DecodeRawBytes_shorter ReadGroup_shorter)
  from br show ?case
  proof
    assume "length b' \<le> length b"
    then show ?thesis using rb by simp
  next
    assume "encoding = WireStartGroup \<and> GetMessageType fd \<noteq> None \<and>
       (\<exists>dm dm'. NewMessage ext (GetMessageType fd) = Dynamic dm \<and>
          unmarshal ext b True dm = Inr (dm', b'))"
    then obtain dm dm' where enc: "encoding = WireStartGroup"
      and mt: "GetMessageType fd \<noteq> None"
      and nm: "NewMessage ext (GetMessageType fd) = Dynamic dm"
      and rec: "unmarshal ext b True dm = Inr (dm', b')"
      by blast
    have ne: "encoding \<noteq> WireFixed32" "encoding \<noteq> WireFixed64" "encoding \<noteq> WireVarint"
      "encoding \<noteq> WireBytes"
      using enc by (simp_all add: wire_defs)
    have "length b' \<le> length b"
      using "2.hyps"(2) [OF ne enc mt nm rec] .
    then show ?thesis using rb by simp
  qed
qed


termination unmarshal
proof (relation "measure (\<lambda>x. case x of
            Inl (ext, buf, isGroup, m) \<Rightarrow> 2 * length buf
          | Inr (ext, m, fd, encoding, b) \<Rightarrow> 2 * length b + 1)", goal_cases)
  case 1
  show ?case by simp
next
  case 2
  then show ?case by (auto dest!: DecodeTagAndWireType_shorter unmarshalUnknownField_shorter)
next
  case 3
  then show ?case by (auto dest!: DecodeTagAndWireType_shorter)
next
  case (4 ext buf isGroup m x2 x1 buf' tagNumber wireType x2a x2b m' buf'')
  then have "length buf' < length buf" "length buf'' \<le> length buf'"
    by (auto dest: DecodeTagAndWireType_shorter unmarshal_dom_shorter(2))
  then show ?case by simp
next
  case 5
  then show ?case by simp
qed

declare unmarshal.simps [simp del] unmarshalKnownField.simps [simp del]


definition UnmarshalMerge ::
  "('md, 'g) externals \<Rightarrow> ('md, 'g) Message \<Rightarrow> byte list \<Rightarrow> error + ('md, 'g) Message" where
  "UnmarshalMerge ext m b =
     (case unmarshal ext b False m of
        Inl err \<Rightarrow> Inl err
      | Inr (m', _) \<Rightarrow> Inr m')"

definition Unmarshal ::
  "('md, 'g) externals \<Rightarrow> ('md, 'g) Message \<Rightarrow> byte list \<Rightarrow> error + ('md, 'g) Message" where
  "Unmarshal ext m b =
     (case UnmarshalMerge ext (Reset m) b of
        Inl err \<Rightarrow> Inl err
      | Inr m' \<Rightarrow>
          (case Validate ext m' of
             Some err \<Rightarrow> Inl err
           | None \<Rightarrow> Inr m'))"

subsection \<open>Encoding\<close>

text \<open>
  An encoder of \<^verbatim>\<open>codec.Buffer\<close> appends bytes to the buffer and returns an error.
  The primitive encoders of the model always succeed; \<open>bufWrite\<close> is the append with
  its result, so that the checks of the source are branches of the model. A marshalling
  function takes the contents of the buffer and returns the new contents.
\<close>

definition bufWrite :: "byte list \<Rightarrow> byte list \<Rightarrow> error + byte list" where
  "bufWrite b bs = Inr (b @ bs)"

definition defaultDeterminism :: bool where
  "defaultDeterminism = False"

text \<open>The loop of \<open>marshalKnownFields\<close> over the tags; a missing descriptor panics.\<close>

datatype 'a outcome = Returns 'a | Panics string

fun marshalKnownFields_loop ::
  "('md, 'g) externals \<Rightarrow> ('md, 'g) Message \<Rightarrow> bool \<Rightarrow> int list \<Rightarrow> byte list
     \<Rightarrow> (error + byte list) outcome" where
  "marshalKnownFields_loop ext m deterministic [] b = Returns (Inr b)"
| "marshalKnownFields_loop ext m deterministic (tag # tags) b =
     (let itag = (word_of_int tag :: 32 word);
          val = valueAt m itag
      in case FindFieldDescriptor ext (m_md m) itag of
           None \<Rightarrow> Panics ''Couldn't find field for tag''
         | Some fd \<Rightarrow>
             (case EncodeFieldValue ext deterministic fd val of
                Inl err \<Rightarrow> Returns (Inl err)
              | Inr bs \<Rightarrow> marshalKnownFields_loop ext m deterministic tags (b @ bs)))"

definition marshalKnownFields ::
  "('md, 'g) externals \<Rightarrow> byte list \<Rightarrow> bool \<Rightarrow> ('md, 'g) Message \<Rightarrow> (error + byte list) outcome"
where
  "marshalKnownFields ext b deterministic m =
     marshalKnownFields_loop ext m deterministic (knownFieldTags ext m) b"

text \<open>The body of the inner loop of \<open>marshalUnknownFields\<close>, for one occurrence.\<close>

definition marshalUnknownField :: "32 word \<Rightarrow> UnknownField \<Rightarrow> byte list \<Rightarrow> error + byte list" where
  "marshalUnknownField itag u b =
     (case bufWrite b (EncodeTagAndWireType itag (Encoding u)) of
        Inl err \<Rightarrow> Inl err
      | Inr b1 \<Rightarrow>
          if Encoding u = WireBytes then bufWrite b1 (EncodeRawBytes (Contents u))
          else if Encoding u = WireStartGroup
          then bufWrite (b1 @ Contents u) (EncodeTagAndWireType itag WireEndGroup)
          else if Encoding u = WireFixed32 then bufWrite b1 (EncodeFixed32 (Value u))
          else if Encoding u = WireFixed64 then bufWrite b1 (EncodeFixed64 (Value u))
          else if Encoding u = WireVarint then bufWrite b1 (EncodeVarint (Value u))
          else Inl ErrInternalBadWireType)"

fun marshalUnknownSlice :: "32 word \<Rightarrow> UnknownField list \<Rightarrow> byte list \<Rightarrow> error + byte list" where
  "marshalUnknownSlice itag [] b = Inr b"
| "marshalUnknownSlice itag (u # sl) b =
     (case marshalUnknownField itag u b of
        Inl err \<Rightarrow> Inl err
      | Inr b' \<Rightarrow> marshalUnknownSlice itag sl b')"

fun marshalUnknownFields_loop ::
  "('md, 'g) Message \<Rightarrow> int list \<Rightarrow> byte list \<Rightarrow> error + byte list" where
  "marshalUnknownFields_loop m [] b = Inr b"
| "marshalUnknownFields_loop m (tag # tags) b =
     (let itag = (word_of_int tag :: 32 word);
          sl = unknownAt m itag
      in case marshalUnknownSlice itag sl b of
           Inl err \<Rightarrow> Inl err
         | Inr b' \<Rightarrow> marshalUnknownFields_loop m tags b')"

definition marshalUnknownFields ::
  "('md, 'g) externals \<Rightarrow> byte list \<Rightarrow> ('md, 'g) Message \<Rightarrow> error + byte list" where
  "marshalUnknownFields ext b m = marshalUnknownFields_loop m (unknownFieldTags ext m) b"

definition marshal ::
  "('md, 'g) externals \<Rightarrow> byte list \<Rightarrow> bool \<Rightarrow> ('md, 'g) Message \<Rightarrow> (error + byte list) outcome"
where
  "marshal ext b deterministic m =
     (case marshalKnownFields ext b deterministic m of
        Panics msg \<Rightarrow> Panics msg
      | Returns (Inl err) \<Rightarrow> Returns (Inl err)
      | Returns (Inr b') \<Rightarrow> Returns (marshalUnknownFields ext b' m))"

definition Marshal :: "('md, 'g) externals \<Rightarrow> ('md, 'g) Message \<Rightarrow> (error + byte list) outcome" where
  "Marshal ext m = marshal ext [] defaultDeterminism m"

definition MarshalAppend ::
  "('md, 'g) externals \<Rightarrow> ('md, 'g) Message \<Rightarrow> byte list \<Rightarrow> (error + byte list) outcome" where
  "MarshalAppend ext m b = marshal ext b defaultDeterminism m"

definition MarshalDeterministic ::
  "('md, 'g) externals \<Rightarrow> ('md, 'g) Message \<Rightarrow> (error + byte list) outcome" where
  "MarshalDeterministic ext m = marshal ext [] True m"

section \<open>Numeric overflow\<close>

text \<open>An example field of a given type, singular or repeated.\<close>

definition ex_field :: "FieldDescriptorProto_Type \<Rightarrow> bool \<Rightarrow> unit desc_FieldDescriptor" where
  "ex_field t rep =
     \<lparr> GetNumber = 1, GetFullyQualifiedName = ''p.M.f'', GetType = t, IsRepeated = rep,
       IsPacked = False, GetMessageType = None \<rparr>"

lemma ucast_down_up_32:
  "(v :: 64 word) \<le> 0xFFFFFFFF \<Longrightarrow> (ucast (ucast v :: 32 word) :: 64 word) = v"
proof -
  assume "v \<le> 0xFFFFFFFF"
  then have "v < 2 ^ 32" by (simp add: word_less_nat_alt word_le_nat_alt)
  then have "v AND mask 32 = v" by (rule less_mask_eq)
  then have "take_bit 32 v = v" by (simp add: take_bit_eq_mask)
  then show ?thesis
    by (simp add: word_eq_iff_unsigned [where ?'a = nat] unsigned_ucast_eq)
qed

lemma scast_down_up_32:
  assumes "\<not> (sint (v :: 64 word) > 2147483647 \<or> sint v < - 2147483648)"
  shows "(scast (ucast v :: 32 word) :: 64 word) = v"
proof -
  have "sint (ucast v :: 32 word) = signed_take_bit 31 (uint v)"
    by (simp add: signed_ucast_eq)
  also have "\<dots> = signed_take_bit 31 (signed_take_bit 63 (uint v))"
    by simp
  also have "signed_take_bit 63 (uint v) = sint v"
    by (simp add: sint_uint)
  also have "signed_take_bit 31 (sint v) = sint v"
    using assms by (simp add: signed_take_bit_int_eq_self_iff)
  finally have "sint (ucast v :: 32 word) = sint v" .
  then show ?thesis by (simp add: scast_eq)
qed

text \<open>
  C4. A value read from a varint or fixed payload for a field of a 32-bit type gives
  \<open>NumericOverflowError\<close> whenever it does not fit the 32 bits of the target: above
  \<^verbatim>\<open>math.MaxUint32\<close> for \<^verbatim>\<open>uint32\<close>, \<^verbatim>\<open>fixed32\<close>, \<^verbatim>\<open>sfixed32\<close>, \<^verbatim>\<open>sint32\<close> and
  \<^verbatim>\<open>float\<close> (whose 32-bit payload is reinterpreted), outside the \<^verbatim>\<open>int32\<close> range as a
  signed 64-bit value for \<^verbatim>\<open>int32\<close> and \<^verbatim>\<open>enum\<close>. In particular the value \<open>2 ^ 32\<close>
  overflows for \<^verbatim>\<open>int32\<close>, \<^verbatim>\<open>uint32\<close>, \<^verbatim>\<open>float\<close> and \<^verbatim>\<open>sfixed32\<close>. A value that is
  returned is never truncated: extending its 32 bits gives back the 64-bit value read.
\<close>

theorem unmarshalSimpleField_overflow:
  "(GetType fd \<in> {TYPE_UINT32, TYPE_FIXED32, TYPE_SFIXED32, TYPE_SINT32, TYPE_FLOAT}
      \<and> v > 0xFFFFFFFF \<longrightarrow>
        (unmarshalSimpleField fd v :: error + ('md, 'g) val) = Inl NumericOverflowError)
   \<and> (GetType fd \<in> {TYPE_INT32, TYPE_ENUM} \<and> (sint v > 2147483647 \<or> sint v < - 2147483648) \<longrightarrow>
        (unmarshalSimpleField fd v :: error + ('md, 'g) val) = Inl NumericOverflowError)
   \<and> (GetType fd \<in> {TYPE_INT32, TYPE_UINT32, TYPE_FLOAT, TYPE_SFIXED32} \<longrightarrow>
        (unmarshalSimpleField fd (2 ^ 32) :: error + ('md, 'g) val) = Inl NumericOverflowError)
   \<and> (GetType fd \<in> {TYPE_UINT32, TYPE_FIXED32} \<and> unmarshalSimpleField fd v = Inr (x :: ('md, 'g) val) \<longrightarrow>
        (\<exists>w. x = VUint32 w \<and> ucast w = v))
   \<and> (GetType fd \<in> {TYPE_INT32, TYPE_ENUM} \<and> unmarshalSimpleField fd v = Inr x \<longrightarrow>
        (\<exists>w. x = VInt32 w \<and> scast w = v))
   \<and> (GetType fd = TYPE_SFIXED32 \<and> unmarshalSimpleField fd v = Inr x \<longrightarrow>
        (\<exists>w. x = VInt32 w \<and> ucast w = v))
   \<and> (GetType fd = TYPE_FLOAT \<and> unmarshalSimpleField fd v = Inr x \<longrightarrow>
        (\<exists>w. x = VFloat32 w \<and> ucast w = v))
   \<and> (GetType fd = TYPE_SINT32 \<and> unmarshalSimpleField fd v = Inr x \<longrightarrow>
        x = VInt32 (DecodeZigZag32 v) \<and> v \<le> 0xFFFFFFFF)"
proof -
  have big: "sint (2 ^ 32 :: 64 word) > 2147483647" by simp
  have big': "(2 ^ 32 :: 64 word) > 0xFFFFFFFF" by simp
  show ?thesis
    using big big'
    by (cases "GetType fd")
       (auto simp: unmarshalSimpleField_def ucast_down_up_32 scast_down_up_32 not_less
          split: if_splits)
qed


theorem unmarshalSimpleField_overflow_witness:
  "GetType (ex_field TYPE_INT32 False) \<in> {TYPE_INT32, TYPE_ENUM}
   \<and> sint (2 ^ 32 :: 64 word) > 2147483647
   \<and> (unmarshalSimpleField (ex_field TYPE_INT32 False) (2 ^ 32) :: error + (unit, unit) val)
       = Inl NumericOverflowError
   \<and> GetType (ex_field TYPE_SFIXED32 False) \<in> {TYPE_UINT32, TYPE_FIXED32, TYPE_SFIXED32, TYPE_SINT32, TYPE_FLOAT}
   \<and> (2 ^ 32 :: 64 word) > 0xFFFFFFFF
   \<and> (unmarshalSimpleField (ex_field TYPE_SFIXED32 False) (2 ^ 32) :: error + (unit, unit) val)
       = Inl NumericOverflowError
   \<and> (unmarshalSimpleField (ex_field TYPE_SFIXED32 False) 0x80000000 :: error + (unit, unit) val)
       = Inr (VInt32 0x80000000)
   \<and> (ucast (0x80000000 :: 32 word) :: 64 word) = 0x80000000"
proof -
  have h1: "GetType (ex_field TYPE_INT32 False) \<in> {TYPE_INT32, TYPE_ENUM}"
    by (simp add: ex_field_def)
  have h2: "sint (2 ^ 32 :: 64 word) > 2147483647" by simp
  have h3: "GetType (ex_field TYPE_SFIXED32 False)
      \<in> {TYPE_UINT32, TYPE_FIXED32, TYPE_SFIXED32, TYPE_SINT32, TYPE_FLOAT}"
    by (simp add: ex_field_def)
  have h4: "(2 ^ 32 :: 64 word) > 0xFFFFFFFF" by simp
  have h5: "(unmarshalSimpleField (ex_field TYPE_SFIXED32 False) 0x80000000 :: error + (unit, unit) val)
       = Inr (VInt32 0x80000000)"
    by (simp add: unmarshalSimpleField_def ex_field_def)
  note t1 = unmarshalSimpleField_overflow
    [where fd = "ex_field TYPE_INT32 False" and v = "2 ^ 32" and x = "VInt32 0" and ?'md = unit and ?'g = unit]
  note t2 = unmarshalSimpleField_overflow
    [where fd = "ex_field TYPE_SFIXED32 False" and v = "2 ^ 32" and x = "VInt32 0" and ?'md = unit and ?'g = unit]
  note t3 = unmarshalSimpleField_overflow
    [where fd = "ex_field TYPE_SFIXED32 False" and v = "0x80000000" and x = "VInt32 0x80000000"
       and ?'md = unit and ?'g = unit]
  have r1: "(unmarshalSimpleField (ex_field TYPE_INT32 False) (2 ^ 32) :: error + (unit, unit) val)
       = Inl NumericOverflowError"
    using t1 h1 h2 by blast
  have r2: "(unmarshalSimpleField (ex_field TYPE_SFIXED32 False) (2 ^ 32) :: error + (unit, unit) val)
       = Inl NumericOverflowError"
    using t2 h3 h4 by blast
  have h6: "GetType (ex_field TYPE_SFIXED32 False) = TYPE_SFIXED32" by (simp add: ex_field_def)
  have "\<exists>w. (VInt32 0x80000000 :: (unit, unit) val) = VInt32 w \<and> (ucast w :: 64 word) = 0x80000000"
    using t3 h6 h5 by blast
  then have r3: "(ucast (0x80000000 :: 32 word) :: 64 word) = 0x80000000" by simp
  show ?thesis
    by (intro conjI h1 h2 r1 h3 h4 r2 h5 r3)
qed

section \<open>Order of the serialized fields\<close>

text \<open>
  The bytes of one occurrence of an unknown tag, in the words of section 4.5 of the
  specification: the tag and wire-type header, then the payload: a length-delimited
  payload with its length prefix, a group payload between its start and end markers,
  a fixed or varint payload re-encoded from the stored integer.
\<close>

definition validEncoding :: "8 word \<Rightarrow> bool" where
  "validEncoding e \<longleftrightarrow>
     e = WireBytes \<or> e = WireStartGroup \<or> e = WireFixed32 \<or> e = WireFixed64 \<or> e = WireVarint"

definition unknownFieldBytes :: "32 word \<Rightarrow> UnknownField \<Rightarrow> byte list" where
  "unknownFieldBytes itag u =
     EncodeTagAndWireType itag (Encoding u)
     @ (if Encoding u = WireBytes then EncodeRawBytes (Contents u)
        else if Encoding u = WireStartGroup
        then Contents u @ EncodeTagAndWireType itag WireEndGroup
        else if Encoding u = WireFixed32 then EncodeFixed32 (Value u)
        else if Encoding u = WireFixed64 then EncodeFixed64 (Value u)
        else EncodeVarint (Value u))"

definition unknownTagBytes :: "('md, 'g) Message \<Rightarrow> int \<Rightarrow> byte list" where
  "unknownTagBytes m tag =
     concat (map (unknownFieldBytes (word_of_int tag)) (unknownAt m (word_of_int tag)))"

lemma marshalUnknownField_bytes:
  "marshalUnknownField itag u b =
     (if validEncoding (Encoding u) then Inr (b @ unknownFieldBytes itag u)
      else Inl ErrInternalBadWireType)"
  by (auto simp: marshalUnknownField_def bufWrite_def unknownFieldBytes_def validEncoding_def
        wire_defs)

lemma marshalUnknownSlice_bytes:
  "marshalUnknownSlice itag sl b = Inr b' \<Longrightarrow>
     b' = b @ concat (map (unknownFieldBytes itag) sl)"
proof (induction sl arbitrary: b)
  case Nil
  then show ?case by simp
next
  case (Cons u sl)
  from Cons.prems have
    r: "marshalUnknownSlice itag sl (b @ unknownFieldBytes itag u) = Inr b'"
    by (simp add: marshalUnknownField_bytes split: if_splits)
  from Cons.IH [OF r] show ?case by simp
qed

lemma marshalUnknownFields_loop_bytes:
  "marshalUnknownFields_loop m tags b = Inr b' \<Longrightarrow>
     b' = b @ concat (map (unknownTagBytes m) tags)"
proof (induction tags arbitrary: b)
  case Nil
  then show ?case by simp
next
  case (Cons tag tags)
  from Cons.prems obtain b1 where
    s: "marshalUnknownSlice (word_of_int tag) (unknownAt m (word_of_int tag)) b = Inr b1"
    and r: "marshalUnknownFields_loop m tags b1 = Inr b'"
    by (auto simp: Let_def split: sum.splits)
  from s have "b1 = b @ unknownTagBytes m tag"
    unfolding unknownTagBytes_def by (rule marshalUnknownSlice_bytes)
  with Cons.IH [OF r] show ?case by simp
qed

text \<open>
  The encoding of the known field of a tag: the bytes \<^verbatim>\<open>EncodeFieldValue\<close> (or its
  deterministic variant) writes for the stored value and the descriptor of the tag.
\<close>

definition knownTagBytes ::
  "('md, 'g) externals \<Rightarrow> bool \<Rightarrow> ('md, 'g) Message \<Rightarrow> int \<Rightarrow> byte list \<Rightarrow> bool" where
  "knownTagBytes ext deterministic m tag bs \<longleftrightarrow>
     (\<exists>fd. FindFieldDescriptor ext (m_md m) (word_of_int tag) = Some fd
        \<and> EncodeFieldValue ext deterministic fd (valueAt m (word_of_int tag)) = Inr bs)"

lemma marshalKnownFields_loop_bytes:
  "marshalKnownFields_loop ext m deterministic tags b = Returns (Inr b') \<Longrightarrow>
     \<exists>kss. list_all2 (knownTagBytes ext deterministic m) tags kss \<and> b' = b @ concat kss"
proof (induction tags arbitrary: b)
  case Nil
  then show ?case by simp
next
  case (Cons tag tags)
  from Cons.prems obtain fd bs where
    fd: "FindFieldDescriptor ext (m_md m) (word_of_int tag) = Some fd"
    and enc: "EncodeFieldValue ext deterministic fd (valueAt m (word_of_int tag)) = Inr bs"
    and r: "marshalKnownFields_loop ext m deterministic tags (b @ bs) = Returns (Inr b')"
    by (auto simp: Let_def split: option.splits sum.splits)
  from Cons.IH [OF r] obtain kss where
    kss: "list_all2 (knownTagBytes ext deterministic m) tags kss" "b' = (b @ bs) @ concat kss"
    by blast
  from fd enc have "knownTagBytes ext deterministic m tag bs"
    unfolding knownTagBytes_def by blast
  with kss have "list_all2 (knownTagBytes ext deterministic m) (tag # tags) (bs # kss)"
    "b' = b @ concat (bs # kss)" by simp_all
  then show ?case by blast
qed

lemma marshal_bytes:
  assumes "marshal ext b deterministic m = Returns (Inr out)"
  shows "\<exists>kss. list_all2 (knownTagBytes ext deterministic m) (knownFieldTags ext m) kss
           \<and> out = b @ concat kss @ concat (map (unknownTagBytes m) (unknownFieldTags ext m))"
proof -
  from assms obtain b1 where
    k: "marshalKnownFields ext b deterministic m = Returns (Inr b1)"
    and u: "marshalUnknownFields ext b1 m = Inr out"
    by (auto simp: marshal_def split: outcome.splits sum.splits)
  from k obtain kss where
    kss: "list_all2 (knownTagBytes ext deterministic m) (knownFieldTags ext m) kss"
      "b1 = b @ concat kss"
    unfolding marshalKnownFields_def by (blast dest: marshalKnownFields_loop_bytes)
  from u have "out = b1 @ concat (map (unknownTagBytes m) (unknownFieldTags ext m))"
    unfolding marshalUnknownFields_def by (rule marshalUnknownFields_loop_bytes)
  with kss show ?thesis by auto
qed

lemma unknownAt_update:
  "unknownAt (Message d vs (AList.update t sl us)) t' =
     (if t' = t then sl else unknownAt (Message d vs us) t')"
  by (simp add: unknownAt_def update_conv')

lemma unmarshalUnknownField_appends:
  assumes "unmarshalUnknownField m t enc b = Inr (m', b')"
  shows "\<exists>u. unknownAt m' t = unknownAt m t @ [u] \<and> Encoding u = enc
           \<and> (\<forall>t'. t' \<noteq> t \<longrightarrow> unknownAt m' t' = unknownAt m t')
           \<and> m_md m' = m_md m \<and> m_values m' = m_values m"
proof -
  from assms obtain u where
    m': "m' = Message (m_md m) (m_values m)
            (AList.update t (unknownAt m t @ [u]) (m_unknownFields m))"
    and e: "Encoding u = enc"
    by (auto simp: unmarshalUnknownField_def Let_def split: if_splits sum.splits)
  have "Message (m_md m) (m_values m) (m_unknownFields m) = m" by (cases m) simp
  then show ?thesis
    using e by (auto simp: m' unknownAt_update)
qed


text \<open>
  Example collaborators for a message with field 1 (\<^verbatim>\<open>int32\<close>) and field 2 (repeated
  \<^verbatim>\<open>int32\<close>): merging stores the last value of a singular field and appends to a
  repeated one, tags are listed in ascending order, and an \<^verbatim>\<open>int32\<close> is encoded as a
  varint field.
\<close>

definition ex_mergeField ::
  "(unit, unit) Message \<Rightarrow> unit desc_FieldDescriptor \<Rightarrow> (unit, unit) val
     \<Rightarrow> error + (unit, unit) Message" where
  "ex_mergeField m fd v =
     (let old = valueAt m (GetNumber fd);
          new = (if IsRepeated fd
                 then (case (old, v) of
                         (VSlice xs, VSlice ys) \<Rightarrow> VSlice (xs @ ys)
                       | (VSlice xs, _) \<Rightarrow> VSlice (xs @ [v])
                       | (_, VSlice ys) \<Rightarrow> VSlice ys
                       | _ \<Rightarrow> VSlice [v])
                 else v)
      in Inr (Message (m_md m) (AList.update (GetNumber fd) new (m_values m))
                (m_unknownFields m)))"

fun ex_EncodeFieldValue ::
  "bool \<Rightarrow> unit desc_FieldDescriptor \<Rightarrow> (unit, unit) val \<Rightarrow> error + byte list" where
  "ex_EncodeFieldValue det fd (VInt32 w) =
     Inr (EncodeTagAndWireType (GetNumber fd) WireVarint @ EncodeVarint (scast w))"
| "ex_EncodeFieldValue det fd (VSlice []) = Inr []"
| "ex_EncodeFieldValue det fd (VSlice (x # xs)) =
     (case (ex_EncodeFieldValue det fd x, ex_EncodeFieldValue det fd (VSlice xs)) of
        (Inr a, Inr b) \<Rightarrow> Inr (a @ b)
      | _ \<Rightarrow> Inl (ExternalError ''unsupported value''))"
| "ex_EncodeFieldValue det fd _ = Inl (ExternalError ''unsupported value'')"

definition ex_ext :: "(unit, unit) externals" where
  "ex_ext =
     \<lparr> FindFieldDescriptor =
         (\<lambda>md tag. if tag = 1 then Some (ex_field TYPE_INT32 False)
                   else if tag = 2 then Some ((ex_field TYPE_INT32 True)\<lparr>GetNumber := 2\<rparr>)
                   else None),
       NewMessage = (\<lambda>md. Dynamic (Message () [] [])),
       protoUnmarshal = (\<lambda>bs msg. Inr msg),
       mergeField = ex_mergeField,
       knownFieldTags = (\<lambda>m. sort (map (\<lambda>(t, v). sint t) (m_values m))),
       unknownFieldTags = (\<lambda>m. sort (map (\<lambda>(t, v). sint t) (m_unknownFields m))),
       EncodeFieldValue = ex_EncodeFieldValue,
       Validate = (\<lambda>m. None) \<rparr>"

definition ex_msg :: "(unit, unit) Message" where
  "ex_msg = Message () [(1, VInt32 5)]
     [(99, [\<lparr> Encoding = WireVarint, Contents = [], Value = 42 \<rparr>,
            \<lparr> Encoding = WireVarint, Contents = [], Value = 43 \<rparr>])]"

text \<open>
  C10. What \<open>Marshal\<close>, \<open>MarshalAppend\<close> and \<open>MarshalDeterministic\<close> return is the
  buffer they start from, then the encodings of all known fields, then the bytes of all
  unknown fields; the bytes of one unknown tag are those of its stored occurrences in
  the order of the stored list. Decoding stores an occurrence at the end of the list of
  its tag, so the stored order is the order of arrival.
\<close>

theorem marshal_known_before_unknown:
  "(Marshal ext m = Returns (Inr out) \<longrightarrow>
      (\<exists>kss. list_all2 (knownTagBytes ext defaultDeterminism m) (knownFieldTags ext m) kss
         \<and> out = concat kss
             @ concat (map (\<lambda>tag. concat (map (unknownFieldBytes (word_of_int tag))
                                             (unknownAt m (word_of_int tag))))
                        (unknownFieldTags ext m))))
   \<and> (MarshalAppend ext m b = Returns (Inr out) \<longrightarrow>
      (\<exists>kss. list_all2 (knownTagBytes ext defaultDeterminism m) (knownFieldTags ext m) kss
         \<and> out = b @ concat kss
             @ concat (map (\<lambda>tag. concat (map (unknownFieldBytes (word_of_int tag))
                                             (unknownAt m (word_of_int tag))))
                        (unknownFieldTags ext m))))
   \<and> (MarshalDeterministic ext m = Returns (Inr out) \<longrightarrow>
      (\<exists>kss. list_all2 (knownTagBytes ext True m) (knownFieldTags ext m) kss
         \<and> out = concat kss
             @ concat (map (\<lambda>tag. concat (map (unknownFieldBytes (word_of_int tag))
                                             (unknownAt m (word_of_int tag))))
                        (unknownFieldTags ext m))))
   \<and> (unmarshalUnknownField m t enc buf = Inr (m', buf') \<longrightarrow>
      (\<exists>u. unknownAt m' t = unknownAt m t @ [u] \<and> Encoding u = enc
         \<and> (\<forall>t'. t' \<noteq> t \<longrightarrow> unknownAt m' t' = unknownAt m t')))"
proof -
  have eq: "(\<lambda>tag. concat (map (unknownFieldBytes (word_of_int tag))
              (unknownAt m (word_of_int tag)))) = unknownTagBytes m"
    by (simp add: fun_eq_iff unknownTagBytes_def)
  have a: "Marshal ext m = Returns (Inr out) \<longrightarrow>
      (\<exists>kss. list_all2 (knownTagBytes ext defaultDeterminism m) (knownFieldTags ext m) kss
         \<and> out = concat kss @ concat (map (unknownTagBytes m) (unknownFieldTags ext m)))"
    using marshal_bytes [of ext "[]" defaultDeterminism m out] by (simp add: Marshal_def)
  have b: "MarshalAppend ext m b = Returns (Inr out) \<longrightarrow>
      (\<exists>kss. list_all2 (knownTagBytes ext defaultDeterminism m) (knownFieldTags ext m) kss
         \<and> out = b @ concat kss @ concat (map (unknownTagBytes m) (unknownFieldTags ext m)))"
    using marshal_bytes [of ext b defaultDeterminism m out] by (simp add: MarshalAppend_def)
  have c: "MarshalDeterministic ext m = Returns (Inr out) \<longrightarrow>
      (\<exists>kss. list_all2 (knownTagBytes ext True m) (knownFieldTags ext m) kss
         \<and> out = concat kss @ concat (map (unknownTagBytes m) (unknownFieldTags ext m)))"
    using marshal_bytes [of ext "[]" True m out] by (simp add: MarshalDeterministic_def)
  have d: "unmarshalUnknownField m t enc buf = Inr (m', buf') \<longrightarrow>
      (\<exists>u. unknownAt m' t = unknownAt m t @ [u] \<and> Encoding u = enc
         \<and> (\<forall>t'. t' \<noteq> t \<longrightarrow> unknownAt m' t' = unknownAt m t'))"
    using unmarshalUnknownField_appends [of m t enc buf m' buf'] by blast
  show ?thesis
    unfolding eq by (intro conjI a b c d)
qed

theorem marshal_known_before_unknown_witness:
  "Marshal ex_ext ex_msg = Returns (Inr [0x08, 0x05, 0x98, 0x06, 42, 0x98, 0x06, 43])
   \<and> MarshalAppend ex_ext ex_msg [1, 2, 3] =
       Returns (Inr [1, 2, 3, 0x08, 0x05, 0x98, 0x06, 42, 0x98, 0x06, 43])
   \<and> MarshalDeterministic ex_ext ex_msg = Returns (Inr [0x08, 0x05, 0x98, 0x06, 42, 0x98, 0x06, 43])
   \<and> (\<exists>kss. list_all2 (knownTagBytes ex_ext defaultDeterminism ex_msg)
               (knownFieldTags ex_ext ex_msg) kss
         \<and> [0x08, 0x05, 0x98, 0x06, 42, 0x98, 0x06, 43] = concat kss
             @ concat (map (\<lambda>tag. concat (map (unknownFieldBytes (word_of_int tag))
                                             (unknownAt ex_msg (word_of_int tag))))
                        (unknownFieldTags ex_ext ex_msg)))
   \<and> unmarshalUnknownField ex_msg 99 WireVarint [44, 7] =
       Inr (Message () [(1, VInt32 5)]
              [(99, [\<lparr> Encoding = WireVarint, Contents = [], Value = 42 \<rparr>,
                     \<lparr> Encoding = WireVarint, Contents = [], Value = 43 \<rparr>,
                     \<lparr> Encoding = WireVarint, Contents = [], Value = 44 \<rparr>])], [7])
   \<and> (\<exists>u. unknownAt (Message () [(1, VInt32 5)]
              [(99, [\<lparr> Encoding = WireVarint, Contents = [], Value = 42 \<rparr>,
                     \<lparr> Encoding = WireVarint, Contents = [], Value = 43 \<rparr>,
                     \<lparr> Encoding = WireVarint, Contents = [], Value = 44 \<rparr>])]
              :: (unit, unit) Message) 99
            = unknownAt ex_msg 99 @ [u])"
proof -
  let ?out = "[0x08, 0x05, 0x98, 0x06, 42, 0x98, 0x06, 43] :: byte list"
  let ?m' = "Message () [(1, VInt32 5)]
              [(99, [\<lparr> Encoding = WireVarint, Contents = [], Value = 42 \<rparr>,
                     \<lparr> Encoding = WireVarint, Contents = [], Value = 43 \<rparr>,
                     \<lparr> Encoding = WireVarint, Contents = [], Value = 44 \<rparr>])] :: (unit, unit) Message"
  have h1: "Marshal ex_ext ex_msg = Returns (Inr ?out)" by code_simp
  have h2: "MarshalAppend ex_ext ex_msg [1, 2, 3] = Returns (Inr ([1, 2, 3] @ ?out))" by code_simp
  have h3: "MarshalDeterministic ex_ext ex_msg = Returns (Inr ?out)" by code_simp
  have h4: "unmarshalUnknownField ex_msg 99 WireVarint [44, 7] = Inr (?m', [7])" by code_simp
  note t = marshal_known_before_unknown
    [of ex_ext ex_msg ?out "[1, 2, 3]" 99 WireVarint "[44, 7]" ?m' "[7]"]
  have r1: "\<exists>kss. list_all2 (knownTagBytes ex_ext defaultDeterminism ex_msg)
               (knownFieldTags ex_ext ex_msg) kss
         \<and> ?out = concat kss
             @ concat (map (\<lambda>tag. concat (map (unknownFieldBytes (word_of_int tag))
                                             (unknownAt ex_msg (word_of_int tag))))
                        (unknownFieldTags ex_ext ex_msg))"
    using t [THEN conjunct1, THEN mp, OF h1] .
  have "\<exists>u. unknownAt ?m' 99 = unknownAt ex_msg 99 @ [u] \<and> Encoding u = WireVarint
         \<and> (\<forall>t'. t' \<noteq> 99 \<longrightarrow> unknownAt ?m' t' = unknownAt ex_msg t')"
    using t [THEN conjunct2, THEN conjunct2, THEN conjunct2, THEN mp, OF h4] .
  then have r2: "\<exists>u. unknownAt ?m' 99 = unknownAt ex_msg 99 @ [u]" by blast
  from h2 have h2': "MarshalAppend ex_ext ex_msg [1, 2, 3] =
       Returns (Inr [1, 2, 3, 0x08, 0x05, 0x98, 0x06, 42, 0x98, 0x06, 43])" by simp
  show ?thesis
    by (intro conjI h1 h2' h3 r1 h4 r2)
qed

section \<open>Round trips of the wire primitives\<close>

lemma m7: "(0x7F :: 'a::len word) = mask 7" by (simp add: mask_eq_decr_exp)
lemma p7: "(0x80 :: 'a::len word) = push_bit 7 1" by simp

lemma varint_split:
  "(x :: 64 word) AND 0x7F OR push_bit 7 (drop_bit 7 x) = x"
  unfolding m7
proof (rule bit_word_eqI)
  fix n assume "n < LENGTH(64)"
  show "bit (x AND mask 7 OR push_bit 7 (drop_bit 7 x)) n = bit x n"
    using \<open>n < LENGTH(64)\<close> by (cases "n < 7") (auto simp: bit_simps)
qed

lemma varint_byte_low:
  "(ucast (ucast ((x :: 64 word) AND 0x7F OR 0x80) :: byte) AND 0x7F :: 64 word) = x AND 0x7F"
  unfolding m7 p7
  by (rule bit_word_eqI) (auto simp: bit_simps simp del: push_bit_of_1)

lemma word_less_2p7_iff: "(w :: 'a::len word) < 2 ^ 7 \<longleftrightarrow> w AND mask 7 = w" if "7 < LENGTH('a)"
proof
  assume "w < 2 ^ 7"
  then show "w AND mask 7 = w" by (rule less_mask_eq)
next
  assume a: "w AND mask 7 = w"
  have "w AND mask 7 < 2 ^ 7" by (rule and_mask_less_size) (simp add: word_size that)
  with a show "w < 2 ^ 7" by simp
qed

lemma byte_less_0x80: "(b :: byte) < 0x80 \<longleftrightarrow> \<not> bit b 7"
proof -
  have "b < 2 ^ 7 \<longleftrightarrow> b AND mask 7 = b" by (rule word_less_2p7_iff) simp
  also have "\<dots> \<longleftrightarrow> \<not> bit b 7"
  proof
    assume "b AND mask 7 = b"
    then have "bit (b AND mask 7) 7 = bit b 7" by simp
    then show "\<not> bit b 7" by (simp add: bit_simps)
  next
    assume nb: "\<not> bit b 7"
    show "b AND mask 7 = b"
    proof (rule bit_word_eqI)
      fix n assume "n < LENGTH(8)"
      then have "n < 7 \<or> n = 7" by auto
      then show "bit (b AND mask 7) n = bit b n" using nb by (auto simp: bit_simps)
    qed
  qed
  finally show ?thesis by simp
qed

lemma varint_byte_cont:
  "\<not> (ucast ((x :: 64 word) AND 0x7F OR 0x80) :: byte) < 0x80"
  unfolding byte_less_0x80 unfolding p7 by (simp add: bit_simps del: push_bit_of_1)

lemma varint_last_byte:
  assumes "\<not> (0x80 :: 64 word) \<le> x"
  shows "(ucast x :: byte) < 0x80" "(ucast (ucast x :: byte) AND 0x7F :: 64 word) = x"
proof -
  from assms have "x < 2 ^ 7" by (simp add: not_le)
  then have tb: "x AND mask 7 = x" by (rule less_mask_eq)
  have nb: "\<not> bit x n" if "7 \<le> n" for n
  proof -
    have "bit (x AND mask 7) n = bit x n" using tb by simp
    then show ?thesis using that by (simp add: bit_simps)
  qed
  show "(ucast x :: byte) < 0x80"
    unfolding byte_less_0x80 using nb [of 7] by (simp add: bit_simps)
  show "(ucast (ucast x :: byte) AND 0x7F :: 64 word) = x"
    unfolding m7
  proof (rule bit_word_eqI)
    fix n assume "n < LENGTH(64)"
    show "bit (ucast (ucast x :: byte) AND mask 7 :: 64 word) n = bit x n"
      using nb [of n] by (cases "n < 7") (auto simp: bit_simps)
  qed
qed

lemma decodeVarint_loop_EncodeVarint:
  "shift < 64 \<Longrightarrow> unat x < 2 ^ (64 - shift) \<Longrightarrow>
     decodeVarint_loop shift acc (EncodeVarint x @ rest) = Inr (acc OR push_bit shift x, rest)"
proof (induction x arbitrary: shift acc rule: EncodeVarint.induct)
  case (1 x)
  show ?case
  proof (cases "0x80 \<le> x")
    case True
    then have "2 ^ 7 \<le> unat x" by (simp add: word_le_nat_alt)
    with "1.prems"(2) have big: "(2::nat) ^ 7 < 2 ^ (64 - shift)" by simp
    have "7 < 64 - shift"
    proof (rule ccontr)
      assume "\<not> 7 < 64 - shift"
      then have "64 - shift \<le> 7" by simp
      then have "(2::nat) ^ (64 - shift) \<le> 2 ^ 7" by (rule power_increasing) simp
      with big show False by simp
    qed
    then have s7: "shift + 7 < 64" by simp
    then have split: "64 - shift = (64 - (shift + 7)) + 7" by simp
    have "unat (drop_bit 7 x) = unat x div 2 ^ 7"
      unfolding unat_drop_bit_eq by (rule drop_bit_eq_div)
    moreover have "unat x < 2 ^ (64 - (shift + 7)) * 2 ^ 7"
      using "1.prems"(2) by (subst (asm) split) (simp only: power_add)
    then have "unat x div 2 ^ 7 < 2 ^ (64 - (shift + 7))"
      by (rule less_mult_imp_div_less)
    ultimately have small: "unat (drop_bit 7 x) < 2 ^ (64 - (shift + 7))" by simp
    have "push_bit shift x = push_bit shift (x AND 0x7F OR push_bit 7 (drop_bit 7 x))"
      by (simp only: varint_split)
    also have "\<dots> = push_bit shift (x AND 0x7F) OR push_bit (shift + 7) (drop_bit 7 x)"
      by (simp only: push_bit_or push_bit_push_bit)
    finally have acc: "(acc OR push_bit shift (x AND 0x7F)) OR push_bit (shift + 7) (drop_bit 7 x)
        = acc OR push_bit shift x"
      by (simp only: or.assoc)
    show ?thesis
      using "1.IH" [OF True s7 small, of "acc OR push_bit shift (x AND 0x7F)"] "1.prems"(1) acc
      by (subst EncodeVarint.simps)
         (simp add: True varint_byte_cont varint_byte_low Let_def)
  next
    case False
    then show ?thesis
      using "1.prems"(1) varint_last_byte [OF False]
      by (subst EncodeVarint.simps) (simp add: Let_def)
  qed
qed


lemma DecodeVarint_EncodeVarint: "DecodeVarint (EncodeVarint x @ rest) = Inr (x, rest)"
proof -
  have "unat x < 2 ^ (64 - 0)" using unsigned_less [of x] by simp
  then show ?thesis
    unfolding DecodeVarint_def
    using decodeVarint_loop_EncodeVarint [of 0 x 0 rest] by simp
qed

lemma DecodeFixed32_EncodeFixed32:
  "x \<le> 0xFFFFFFFF \<Longrightarrow> DecodeFixed32 (EncodeFixed32 x @ rest) = Inr (x, rest)"
proof -
  assume "x \<le> 0xFFFFFFFF"
  then have "x < 2 ^ 32" by (simp add: word_less_nat_alt word_le_nat_alt)
  then have tb: "x AND mask 32 = x" by (rule less_mask_eq)
  have nb: "\<not> bit x n" if "32 \<le> n" for n
  proof -
    have "bit (x AND mask 32) n = bit x n" using tb by simp
    then show ?thesis using that by (simp add: bit_simps)
  qed
  have "(ucast (ucast x :: byte) OR push_bit 8 (ucast (ucast (drop_bit 8 x) :: byte))
         OR push_bit 16 (ucast (ucast (drop_bit 16 x) :: byte))
         OR push_bit 24 (ucast (ucast (drop_bit 24 x) :: byte)) :: 64 word) = x"
  proof (rule bit_word_eqI)
    fix n assume n: "n < LENGTH(64)"
    consider "n < 8" | "8 \<le> n" "n < 16" | "16 \<le> n" "n < 24" | "24 \<le> n" "n < 32" | "32 \<le> n"
      by linarith
    then show "bit (ucast (ucast x :: byte) OR push_bit 8 (ucast (ucast (drop_bit 8 x) :: byte))
         OR push_bit 16 (ucast (ucast (drop_bit 16 x) :: byte))
         OR push_bit 24 (ucast (ucast (drop_bit 24 x) :: byte)) :: 64 word) n = bit x n"
      using n nb [of n] by cases (auto simp: bit_simps)
  qed
  then show ?thesis by (simp add: EncodeFixed32_def)
qed

lemma DecodeFixed64_EncodeFixed64: "DecodeFixed64 (EncodeFixed64 x @ rest) = Inr (x, rest)"
proof -
  have "(ucast (ucast x :: byte) OR push_bit 8 (ucast (ucast (drop_bit 8 x) :: byte))
         OR push_bit 16 (ucast (ucast (drop_bit 16 x) :: byte))
         OR push_bit 24 (ucast (ucast (drop_bit 24 x) :: byte))
         OR push_bit 32 (ucast (ucast (drop_bit 32 x) :: byte))
         OR push_bit 40 (ucast (ucast (drop_bit 40 x) :: byte))
         OR push_bit 48 (ucast (ucast (drop_bit 48 x) :: byte))
         OR push_bit 56 (ucast (ucast (drop_bit 56 x) :: byte)) :: 64 word) = x"
  proof (rule bit_word_eqI)
    fix n assume n: "n < LENGTH(64)"
    then consider "n < 8" | "8 \<le> n" "n < 16" | "16 \<le> n" "n < 24" | "24 \<le> n" "n < 32"
      | "32 \<le> n" "n < 40" | "40 \<le> n" "n < 48" | "48 \<le> n" "n < 56" | "56 \<le> n" "n < 64"
      by (simp; linarith)
    then show "bit (ucast (ucast x :: byte) OR push_bit 8 (ucast (ucast (drop_bit 8 x) :: byte))
         OR push_bit 16 (ucast (ucast (drop_bit 16 x) :: byte))
         OR push_bit 24 (ucast (ucast (drop_bit 24 x) :: byte))
         OR push_bit 32 (ucast (ucast (drop_bit 32 x) :: byte))
         OR push_bit 40 (ucast (ucast (drop_bit 40 x) :: byte))
         OR push_bit 48 (ucast (ucast (drop_bit 48 x) :: byte))
         OR push_bit 56 (ucast (ucast (drop_bit 56 x) :: byte)) :: 64 word) n = bit x n"
      by cases (auto simp: bit_simps)
  qed
  then show ?thesis by (simp add: EncodeFixed64_def)
qed

lemma DecodeFixed32_bound: "DecodeFixed32 buf = Inr (v, rest) \<Longrightarrow> v \<le> 0xFFFFFFFF"
proof (induction buf rule: DecodeFixed32.induct)
  case (1 b0 b1 b2 b3 r)
  let ?w = "ucast b0 OR push_bit 8 (ucast b1) OR push_bit 16 (ucast b2) OR push_bit 24 (ucast b3)
    :: 64 word"
  have byte_bit: "k < 8" if "bit b k" for b :: byte and k
    using bit_imp_le_length [OF that] by simp
  have "?w AND mask 32 = ?w"
    by (rule bit_word_eqI) (auto simp: bit_simps dest: byte_bit)
  then have "uint ?w < 2 ^ 32" by (simp only: mask_eq_iff)
  then have "?w \<le> 0xFFFFFFFF" by (simp add: word_le_def)
  with "1.prems" show ?case by simp
qed simp_all


lemma DecodeRawBytes_EncodeRawBytes:
  assumes "length c < 2 ^ 63"
  shows "DecodeRawBytes alloc (EncodeRawBytes c @ rest) = Inr (c, rest)"
proof -
  let ?n = "of_nat (length c) :: 64 word"
  have "sint ?n = signed_take_bit 63 (int (length c))" by (simp add: signed_of_nat)
  also have "\<dots> = int (length c)"
    using assms by (intro signed_take_bit_int_eq_self) simp_all
  finally have nonneg: "\<not> sint ?n < 0" by simp
  have "unat ?n = length c mod 2 ^ 64" by (simp add: unat_of_nat)
  also have "\<dots> = length c" using assms by simp
  finally have len: "unat ?n = length c" .
  show ?thesis
    using nonneg
    by (simp add: DecodeRawBytes_def EncodeRawBytes_def DecodeVarint_EncodeVarint len)
qed

lemma tag_bits:
  assumes "0 \<le> sint (t :: 32 word)"
  shows "\<not> bit t 31"
  using assms bit_last_iff [of t] by simp

lemma wire_bits:
  assumes "(w :: 8 word) < 8" and that: "3 \<le> n"
  shows "\<not> bit w n"
proof -
  from assms have "w < 2 ^ 3" by simp
  then have "w AND mask 3 = w" by (rule less_mask_eq)
  then have "bit (w AND mask 3) n = bit w n" by simp
  then show ?thesis using that by (simp add: bit_simps)
qed

lemma DecodeTagAndWireType_EncodeTagAndWireType:
  assumes t: "0 \<le> sint t" and w: "w < 8"
  shows "DecodeTagAndWireType (EncodeTagAndWireType t w @ rest) = Inr ((t, w), rest)"
proof -
  let ?v = "push_bit 3 (scast t) OR scast w :: 64 word"
  note tb = tag_bits [OF t]
  note wb = wire_bits [OF w]
  have t31: "n < 31" if "bit t n" for n
  proof -
    from that have "n < 32" using bit_imp_le_length [of t n] by simp
    with that tb show ?thesis by (cases "n = 31") auto
  qed
  have seven: "(7 :: 64 word) = mask 3" by (simp add: mask_eq_decr_exp)
  have wt: "(ucast (?v AND 7) :: 8 word) = w"
    unfolding seven
  proof (rule bit_word_eqI)
    fix n assume "n < LENGTH(8)"
    then show "bit (ucast (?v AND mask 3) :: 8 word) n = bit w n"
      using wb [of n] by (cases "n < 3") (auto simp: bit_simps)
  qed
  have dv: "drop_bit 3 ?v = (ucast t :: 64 word)"
  proof (rule bit_word_eqI)
    fix n assume "n < LENGTH(64)"
    then show "bit (drop_bit 3 ?v) n = bit (ucast t :: 64 word) n"
      using wb [of "n + 3"] wb [of "3 + n"] wb [of 7] tb t31 [of n]
      by (cases "n < 31") (auto simp: bit_simps min_def)
  qed
  have "(ucast t :: 64 word) AND mask 31 = ucast t"
    by (intro bit_word_eqI) (auto simp: bit_simps dest: t31)
  then have "uint (ucast t :: 64 word) < 2 ^ 31" by (simp only: mask_eq_iff)
  then have small: "\<not> (ucast t :: 64 word) > 0x7FFFFFFF" by (simp add: word_less_def)
  have tround: "(ucast (ucast t :: 64 word) :: 32 word) = t"
    by (rule bit_word_eqI) (auto simp: bit_simps)
  show ?thesis
    unfolding DecodeTagAndWireType_def EncodeTagAndWireType_def DecodeVarint_EncodeVarint
    by (simp only: sum.case prod.case Let_def wt dv small if_False tround)
qed

section \<open>Packed payloads\<close>

text \<open>
  The run of values of a packed payload: the values read back to back, with the reader
  of the declared type, until the payload is exhausted.
\<close>

function packedValues :: "'md desc_FieldDescriptor \<Rightarrow> byte list \<Rightarrow> error + 64 word list" where
  "packedValues fd buf =
     (if buf = [] then Inr []
      else (case packedRead fd buf of
              Inl err \<Rightarrow> Inl err
            | Inr (v, rest) \<Rightarrow>
                (case packedValues fd rest of
                   Inl err \<Rightarrow> Inl err
                 | Inr vs \<Rightarrow> Inr (v # vs))))"
  by pat_completeness auto
termination
  by (relation "measure (\<lambda>(fd, buf). length buf)") (auto dest: packedRead_shorter)

declare packedValues.simps [simp del]

text \<open>The packed encoding of a run of values for the declared type.\<close>

definition packedEncode :: "'md desc_FieldDescriptor \<Rightarrow> 64 word \<Rightarrow> byte list" where
  "packedEncode fd v =
     (if varintTypes (GetType fd) then EncodeVarint v
      else if fixed32Types (GetType fd) then EncodeFixed32 v
      else EncodeFixed64 v)"

definition packedBytes :: "'md desc_FieldDescriptor \<Rightarrow> 64 word list \<Rightarrow> byte list" where
  "packedBytes fd vs = concat (map (packedEncode fd) vs)"

definition scalarType :: "FieldDescriptorProto_Type \<Rightarrow> bool" where
  "scalarType t \<longleftrightarrow> t \<notin> {TYPE_MESSAGE, TYPE_GROUP, TYPE_STRING, TYPE_BYTES}"

lemma packedLoop_values:
  "packedValues fd buf = Inr vs \<Longrightarrow>
   list_all2 (\<lambda>v x. unmarshalSimpleField fd v = Inr x) vs xs \<Longrightarrow>
     packedLoop fd slice' val buf =
       Inr (if IsRepeated fd then slice' @ xs else slice', last (val # xs))"
proof (induction fd buf arbitrary: vs xs slice' val rule: packedValues.induct)
  case (1 fd buf)
  show ?case
  proof (cases "buf = []")
    case True
    with "1.prems" show ?thesis
      by (subst packedLoop.simps) (simp add: packedValues.simps)
  next
    case False
    with "1.prems"(1) obtain v rest vs' where
      rd: "packedRead fd buf = Inr (v, rest)"
      and rec: "packedValues fd rest = Inr vs'" and vs: "vs = v # vs'"
      by (subst (asm) packedValues.simps) (auto split: sum.splits)
    from "1.prems"(2) vs obtain x xs' where
      xs: "xs = x # xs'" and x: "unmarshalSimpleField fd v = Inr x"
      and all: "list_all2 (\<lambda>v x. unmarshalSimpleField fd v = Inr x) vs' xs'"
      by (auto simp: list_all2_Cons1)
    have "packedLoop fd (if IsRepeated fd then slice' @ [x] else slice') x rest =
        Inr (if IsRepeated fd then (if IsRepeated fd then slice' @ [x] else slice') @ xs'
             else (if IsRepeated fd then slice' @ [x] else slice'), last (x # xs'))"
      by (rule "1.IH" [OF False rd refl rec all])
    then show ?thesis
      using False rd x xs by (subst packedLoop.simps) simp
  qed
qed

lemma EncodeVarint_nonempty: "EncodeVarint x \<noteq> []"
  by (subst EncodeVarint.simps) simp

lemma packedEncode_nonempty: "packedEncode fd v \<noteq> []"
  by (simp add: packedEncode_def EncodeVarint_nonempty EncodeFixed32_def EncodeFixed64_def)

lemma scalarType_tables:
  "scalarType t \<Longrightarrow> varintTypes t \<or> fixed32Types t \<or> fixed64Types t"
  by (cases t) (simp_all add: scalarType_def varintTypes_def fixed32Types_def fixed64Types_def)

lemma fixed32_value_bound:
  "fixed32Types (GetType fd) \<Longrightarrow> unmarshalSimpleField fd v = Inr x \<Longrightarrow> v \<le> 0xFFFFFFFF"
  by (cases "GetType fd")
     (auto simp: fixed32Types_def unmarshalSimpleField_def not_less split: if_splits)

lemma packedRead_packedEncode:
  assumes "scalarType (GetType fd)" and "fixed32Types (GetType fd) \<longrightarrow> v \<le> 0xFFFFFFFF"
  shows "packedRead fd (packedEncode fd v @ rest) = Inr (v, rest)"
  using assms scalarType_tables [of "GetType fd"]
  by (auto simp: packedRead_def packedEncode_def DecodeVarint_EncodeVarint
        DecodeFixed32_EncodeFixed32 DecodeFixed64_EncodeFixed64)

lemma packedValues_packedBytes:
  assumes "scalarType (GetType fd)"
    and "list_all2 (\<lambda>v x. unmarshalSimpleField fd v = Inr (x :: ('md, 'g) val)) vs xs"
  shows "packedValues fd (packedBytes fd vs) = Inr vs"
  using assms(2)
proof (induction vs arbitrary: xs)
  case Nil
  then show ?case by (simp add: packedBytes_def packedValues.simps)
next
  case (Cons v vs)
  then obtain x :: "('md, 'g) val" and xs' :: "('md, 'g) val list" where x: "unmarshalSimpleField fd v = Inr x"
    and all: "list_all2 (\<lambda>v x. unmarshalSimpleField fd v = Inr x) vs xs'"
    by (auto simp: list_all2_Cons1)
  have "fixed32Types (GetType fd) \<longrightarrow> v \<le> 0xFFFFFFFF"
    using x by (auto dest: fixed32_value_bound)
  then have rd: "packedRead fd (packedEncode fd v @ packedBytes fd vs) = Inr (v, packedBytes fd vs)"
    using assms(1) by (intro packedRead_packedEncode)
  show ?case
    using Cons.IH [OF all] rd
    by (subst packedValues.simps) (simp add: packedBytes_def packedEncode_nonempty)
qed


lemma packedLoop_IsPacked:
  "packedLoop (fd\<lparr>IsPacked := p\<rparr>) slice' val buf = packedLoop fd slice' val buf"
proof (induction fd slice' val buf rule: packedLoop.induct)
  case (1 fd slice' val buf)
  have rd: "packedRead (fd\<lparr>IsPacked := p\<rparr>) buf = packedRead fd buf"
    by (simp add: packedRead_def)
  have sf: "(unmarshalSimpleField (fd\<lparr>IsPacked := p\<rparr>) v :: error + ('a, 'b) val)
      = unmarshalSimpleField fd v" for v
    by (cases "GetType fd") (simp_all add: unmarshalSimpleField_def)
  show ?case
  proof (cases "buf = []")
    case True
    then show ?thesis by (simp add: packedLoop.simps)
  next
    case False
    show ?thesis
    proof (cases "packedRead fd buf")
      case (Inl err)
      with False rd show ?thesis by (simp add: packedLoop.simps)
    next
      case (Inr vr)
      obtain v rest where vr: "vr = (v, rest)" by (cases vr)
      show ?thesis
      proof (cases "unmarshalSimpleField fd v :: error + ('a, 'b) val")
        case (Inl err)
        with False rd Inr vr sf [of v] show ?thesis
          by (subst packedLoop.simps, subst (2) packedLoop.simps) simp
      next
        case x: (Inr val')
        have "packedLoop (fd\<lparr>IsPacked := p\<rparr>)
                (if IsRepeated fd then slice' @ [val'] else slice') val' rest
              = packedLoop fd (if IsRepeated fd then slice' @ [val'] else slice') val' rest"
          using "1.IH" [OF False Inr [unfolded vr] refl x] .
        with False rd Inr vr sf [of v] x show ?thesis
          by (subst packedLoop.simps, subst (2) packedLoop.simps) simp
      qed
    qed
  qed
qed

text \<open>
  C5. For a field whose declared type is not message, group, string or bytes, a
  length-delimited payload is decoded as a packed run: the values are read back to
  back with the reader of the declared type (varint, fixed32 or fixed64), each is
  converted by \<open>unmarshalSimpleField\<close>, and the result is the slice of all of them in
  order when the field is repeated, and the last one (nil for an empty payload) when it
  is not. The packed encoding of any run of values that convert is read back as that
  run. The packing declaration of the field has no effect. \<open>unmarshalKnownField\<close> hands
  the payload of wire type 2 to this decoding and merges the result.
\<close>

theorem unmarshalLengthDelimitedField_packed_run:
  "(scalarType (GetType fd) \<and> packedValues fd raw = Inr vs
      \<and> list_all2 (\<lambda>v x. unmarshalSimpleField fd v = Inr x) vs xs \<longrightarrow>
        unmarshalLengthDelimitedField ext fd raw =
          Inr (if IsRepeated fd then VSlice xs else if xs = [] then VNil else last xs))
   \<and> (scalarType (GetType fd)
      \<and> list_all2 (\<lambda>v x. unmarshalSimpleField fd v = Inr (x :: ('md, 'g) val)) vs xs \<longrightarrow>
        packedValues fd (packedBytes fd vs) = Inr vs)
   \<and> unmarshalLengthDelimitedField ext (fd\<lparr>IsPacked := p\<rparr>) raw =
       unmarshalLengthDelimitedField ext fd raw
   \<and> (GetType fd \<noteq> TYPE_BYTES \<and> GetType fd \<noteq> TYPE_STRING
      \<and> DecodeRawBytes False b = Inr (raw, b') \<longrightarrow>
        unmarshalKnownField ext m fd WireBytes b =
          (case unmarshalLengthDelimitedField ext fd raw of
             Inl err \<Rightarrow> Inl err
           | Inr val \<Rightarrow>
               (case mergeField ext m fd val of
                  Inl err \<Rightarrow> Inl err
                | Inr m' \<Rightarrow> Inr (m', b'))))"
proof (intro conjI impI)
  assume a: "scalarType (GetType fd) \<and> packedValues fd raw = Inr vs
      \<and> list_all2 (\<lambda>v x. unmarshalSimpleField fd v = Inr x) vs xs"
  then have "packedLoop fd [] VNil raw = Inr (if IsRepeated fd then [] @ xs else [], last (VNil # xs))"
    using packedLoop_values [of fd raw vs xs "[]" VNil] by blast
  with a show "unmarshalLengthDelimitedField ext fd raw =
          Inr (if IsRepeated fd then VSlice xs else if xs = [] then VNil else last xs)"
    by (auto simp: unmarshalLengthDelimitedField_def scalarType_def)
next
  assume "scalarType (GetType fd)
      \<and> list_all2 (\<lambda>v x. unmarshalSimpleField fd v = Inr (x :: ('md, 'g) val)) vs xs"
  then show "packedValues fd (packedBytes fd vs) = Inr vs"
    using packedValues_packedBytes [of fd vs xs] by simp
next
  show "unmarshalLengthDelimitedField ext (fd\<lparr>IsPacked := p\<rparr>) raw =
       unmarshalLengthDelimitedField ext fd raw"
    by (simp add: unmarshalLengthDelimitedField_def packedLoop_IsPacked split: sum.splits)
next
  assume "GetType fd \<noteq> TYPE_BYTES \<and> GetType fd \<noteq> TYPE_STRING
      \<and> DecodeRawBytes False b = Inr (raw, b')"
  then show "unmarshalKnownField ext m fd WireBytes b =
          (case unmarshalLengthDelimitedField ext fd raw of
             Inl err \<Rightarrow> Inl err
           | Inr val \<Rightarrow>
               (case mergeField ext m fd val of
                  Inl err \<Rightarrow> Inl err
                | Inr m' \<Rightarrow> Inr (m', b')))"
    by (subst unmarshalKnownField.simps) (simp add: wire_defs split: sum.splits)
qed


theorem unmarshalLengthDelimitedField_packed_run_witness:
  "scalarType (GetType (ex_field TYPE_INT32 True))
   \<and> packedValues (ex_field TYPE_INT32 True) [1, 2, 3] = Inr [1, 2, 3]
   \<and> list_all2 (\<lambda>v x. unmarshalSimpleField (ex_field TYPE_INT32 True) v = Inr x)
         [1, 2, 3] [VInt32 1, VInt32 2, VInt32 3 :: (unit, unit) val]
   \<and> unmarshalLengthDelimitedField ex_ext (ex_field TYPE_INT32 True) [1, 2, 3] =
       Inr (VSlice [VInt32 1, VInt32 2, VInt32 3])
   \<and> unmarshalLengthDelimitedField ex_ext (ex_field TYPE_INT32 False) [1, 2, 3] = Inr (VInt32 3)
   \<and> packedValues (ex_field TYPE_INT32 True) (packedBytes (ex_field TYPE_INT32 True) [1, 2, 3])
       = Inr [1, 2, 3]
   \<and> DecodeRawBytes False [3, 1, 2, 3, 9] = Inr ([1, 2, 3], [9])
   \<and> unmarshalKnownField ex_ext (Message () [] []) (ex_field TYPE_INT32 False) WireBytes
         [3, 1, 2, 3, 9] = Inr (Message () [(1, VInt32 3)] [], [9])"
proof -
  let ?R = "ex_field TYPE_INT32 True" and ?S = "ex_field TYPE_INT32 False"
  let ?xs = "[VInt32 1, VInt32 2, VInt32 3 :: (unit, unit) val]"
  let ?m = "Message () [] [] :: (unit, unit) Message"
  have h1: "scalarType (GetType ?R)" by code_simp
  have h1': "scalarType (GetType ?S)" by code_simp
  have h2: "packedValues ?R [1, 2, 3] = Inr [1, 2, 3]" by code_simp
  have h2': "packedValues ?S [1, 2, 3] = Inr [1, 2, 3]" by code_simp
  have h3: "list_all2 (\<lambda>v x. unmarshalSimpleField ?R v = Inr x) [1, 2, 3] ?xs" by code_simp
  have h3': "list_all2 (\<lambda>v x. unmarshalSimpleField ?S v = Inr x) [1, 2, 3] ?xs" by code_simp
  have h4: "GetType ?S \<noteq> TYPE_BYTES \<and> GetType ?S \<noteq> TYPE_STRING
      \<and> DecodeRawBytes False [3, 1, 2, 3, 9] = Inr ([1, 2, 3], [9])" by code_simp
  note tR = unmarshalLengthDelimitedField_packed_run
    [of ?R "[1, 2, 3]" "[1, 2, 3]" ?xs ex_ext False "[3, 1, 2, 3, 9]" "[9]" ?m]
  note tS = unmarshalLengthDelimitedField_packed_run
    [of ?S "[1, 2, 3]" "[1, 2, 3]" ?xs ex_ext False "[3, 1, 2, 3, 9]" "[9]" ?m]
  have r1: "unmarshalLengthDelimitedField ex_ext ?R [1, 2, 3] = Inr (VSlice ?xs)"
    using tR [THEN conjunct1, THEN mp, OF conjI [OF h1 conjI [OF h2 h3]]]
    by (simp add: ex_field_def)
  have r2: "unmarshalLengthDelimitedField ex_ext ?S [1, 2, 3] = Inr (VInt32 3)"
    using tS [THEN conjunct1, THEN mp, OF conjI [OF h1' conjI [OF h2' h3']]]
    by (simp add: ex_field_def)
  have r3: "packedValues ?R (packedBytes ?R [1, 2, 3]) = Inr [1, 2, 3]"
    using tR [THEN conjunct2, THEN conjunct1, THEN mp, OF conjI [OF h1 h3]] .
  have mf: "mergeField ex_ext ?m ?S (VInt32 3) = Inr (Message () [(1, VInt32 3)] [])"
    by code_simp
  have r4: "unmarshalKnownField ex_ext ?m ?S WireBytes [3, 1, 2, 3, 9]
      = Inr (Message () [(1, VInt32 3)] [], [9])"
    using tS [THEN conjunct2, THEN conjunct2, THEN conjunct2, THEN mp, OF h4]
    by (simp add: r2 mf)
  show ?thesis
    by (intro conjI h1 h2 h3 r1 r2 r3 h4 [THEN conjunct2, THEN conjunct2] r4)
qed


section \<open>Group markers\<close>

text \<open>
  One iteration of the loop of \<open>unmarshal\<close> that decodes a field: the buffer is not at
  its end, the header is not a group-end marker, and the field, known or unknown, is
  decoded without error. \<open>fieldStep ext (m, buf) (m', buf')\<close> relates the message and
  the buffer before the iteration to those after it.
\<close>

definition fieldStep ::
  "('md, 'g) externals \<Rightarrow> ('md, 'g) Message \<times> byte list \<Rightarrow> ('md, 'g) Message \<times> byte list \<Rightarrow> bool"
where
  "fieldStep ext s s' \<longleftrightarrow>
     (case s of (m, buf) \<Rightarrow>
        buf \<noteq> [] \<and>
        (case DecodeTagAndWireType buf of
           Inl err \<Rightarrow> False
         | Inr ((tagNumber, wireType), buf') \<Rightarrow>
             wireType \<noteq> WireEndGroup \<and>
             (case FindFieldDescriptor ext (m_md m) tagNumber of
                None \<Rightarrow> unmarshalUnknownField m tagNumber wireType buf' = Inr s'
              | Some fd \<Rightarrow> unmarshalKnownField ext m fd wireType buf' = Inr s')))"

lemma unmarshal_fieldStep:
  "fieldStep ext (m, buf) (m', buf') \<Longrightarrow>
     unmarshal ext buf isGroup m = unmarshal ext buf' isGroup m'"
  by (subst unmarshal.simps)
     (auto simp: fieldStep_def split: sum.splits option.splits prod.splits)

lemma unmarshal_fieldSteps:
  "(fieldStep ext)\<^sup>*\<^sup>* s s' \<Longrightarrow>
     unmarshal ext (snd s) isGroup (fst s) = unmarshal ext (snd s') isGroup (fst s')"
proof (induction rule: rtranclp_induct)
  case base
  show ?case by simp
next
  case (step y z)
  from step.hyps(2) have "unmarshal ext (snd y) isGroup (fst y) = unmarshal ext (snd z) isGroup (fst z)"
    using unmarshal_fieldStep [of ext "fst y" "snd y" "fst z" "snd z" isGroup] by simp
  with step.IH show ?case by simp
qed

lemma unmarshal_at_group_end:
  assumes "DecodeTagAndWireType buf = Inr ((tagNumber, WireEndGroup), rest)"
  shows "unmarshal ext buf False m = Inl ErrInternalBadWireType"
    and "unmarshal ext buf True m = Inr (m, rest)"
proof -
  from assms have "length rest < length buf" by (rule DecodeTagAndWireType_shorter)
  then have ne: "buf \<noteq> []" by auto
  show "unmarshal ext buf False m = Inl ErrInternalBadWireType"
    using assms ne by (subst unmarshal.simps) simp
  show "unmarshal ext buf True m = Inr (m, rest)"
    using assms ne by (subst unmarshal.simps) simp
qed

lemma unmarshal_at_end:
  "unmarshal ext [] True m = Inl ErrUnexpectedEOF" "unmarshal ext [] False m = Inr (m, [])"
  by (subst unmarshal.simps, simp)+

text \<open>
  What the loop of \<open>unmarshal\<close> does at a group-end marker and at the end of the input.
  After any number of decoded fields, a group-end marker read while not inside a group
  makes \<open>unmarshal\<close>, hence \<open>UnmarshalMerge\<close> and \<open>Unmarshal\<close>, fail at once with
  \<^verbatim>\<open>ErrInternalBadWireType\<close>. Inside a group (\<open>isGroup\<close>), the end of the input gives
  \<^verbatim>\<open>io.ErrUnexpectedEOF\<close> and a group-end marker ends the parse of the group
  successfully, with the input after the marker left to the caller. A group field of a
  dynamic message type is parsed inside a group, and its error is the error of the field.
\<close>

lemma unmarshal_group_markers:
  "((fieldStep ext)\<^sup>*\<^sup>* (m0, b) (m, buf)
      \<and> DecodeTagAndWireType buf = Inr ((tagNumber, WireEndGroup), rest) \<longrightarrow>
        unmarshal ext b False m0 = Inl ErrInternalBadWireType
        \<and> UnmarshalMerge ext m0 b = Inl ErrInternalBadWireType
        \<and> unmarshal ext b True m0 = Inr (m, rest))
   \<and> ((fieldStep ext)\<^sup>*\<^sup>* (Reset m0, b) (m, buf)
      \<and> DecodeTagAndWireType buf = Inr ((tagNumber, WireEndGroup), rest) \<longrightarrow>
        Unmarshal ext m0 b = Inl ErrInternalBadWireType)
   \<and> ((fieldStep ext)\<^sup>*\<^sup>* (m0, b) (m, []) \<longrightarrow>
        unmarshal ext b True m0 = Inl ErrUnexpectedEOF
        \<and> unmarshal ext b False m0 = Inr (m, []))
   \<and> (GetMessageType fd \<noteq> None \<and> NewMessage ext (GetMessageType fd) = Dynamic dm
      \<and> unmarshal ext b True dm = Inl err \<longrightarrow>
        unmarshalKnownField ext m fd WireStartGroup b = Inl err)"
proof (intro conjI impI)
  assume a: "(fieldStep ext)\<^sup>*\<^sup>* (m0, b) (m, buf)
      \<and> DecodeTagAndWireType buf = Inr ((tagNumber, WireEndGroup), rest)"
  then have eq: "unmarshal ext b g m0 = unmarshal ext buf g m" for g
    using unmarshal_fieldSteps [of ext "(m0, b)" "(m, buf)" g] by simp
  from a have hdr: "DecodeTagAndWireType buf = Inr ((tagNumber, WireEndGroup), rest)" by simp
  show "unmarshal ext b False m0 = Inl ErrInternalBadWireType"
    unfolding eq by (rule unmarshal_at_group_end(1) [OF hdr])
  then show "UnmarshalMerge ext m0 b = Inl ErrInternalBadWireType"
    by (simp add: UnmarshalMerge_def)
  show "unmarshal ext b True m0 = Inr (m, rest)"
    unfolding eq by (rule unmarshal_at_group_end(2) [OF hdr])
next
  assume a: "(fieldStep ext)\<^sup>*\<^sup>* (Reset m0, b) (m, buf)
      \<and> DecodeTagAndWireType buf = Inr ((tagNumber, WireEndGroup), rest)"
  then have eq: "unmarshal ext b False (Reset m0) = unmarshal ext buf False m"
    using unmarshal_fieldSteps [of ext "(Reset m0, b)" "(m, buf)" False] by simp
  from a have hdr: "DecodeTagAndWireType buf = Inr ((tagNumber, WireEndGroup), rest)" by simp
  have "unmarshal ext b False (Reset m0) = Inl ErrInternalBadWireType"
    unfolding eq by (rule unmarshal_at_group_end(1) [OF hdr])
  then show "Unmarshal ext m0 b = Inl ErrInternalBadWireType"
    by (simp add: Unmarshal_def UnmarshalMerge_def)
next
  assume a: "(fieldStep ext)\<^sup>*\<^sup>* (m0, b) (m, [])"
  then have eq: "unmarshal ext b g m0 = unmarshal ext [] g m" for g
    using unmarshal_fieldSteps [of ext "(m0, b)" "(m, [])" g] by simp
  show "unmarshal ext b True m0 = Inl ErrUnexpectedEOF"
    unfolding eq by (rule unmarshal_at_end)
  show "unmarshal ext b False m0 = Inr (m, [])"
    unfolding eq by (rule unmarshal_at_end)
next
  assume "GetMessageType fd \<noteq> None \<and> NewMessage ext (GetMessageType fd) = Dynamic dm
      \<and> unmarshal ext b True dm = Inl err"
  then show "unmarshalKnownField ext m fd WireStartGroup b = Inl err"
    by (subst unmarshalKnownField.simps) (auto simp: wire_defs)
qed


lemma unmarshal_group_markers_example:
  "(fieldStep ex_ext)\<^sup>*\<^sup>* (Message () [] [], [0x08, 0x05, 0x0C, 0x10])
       (Message () [(1, VInt32 5)] [], [0x0C, 0x10])
   \<and> DecodeTagAndWireType [0x0C, 0x10] = Inr ((1, WireEndGroup), [0x10])
   \<and> unmarshal ex_ext [0x08, 0x05, 0x0C, 0x10] False (Message () [] []) = Inl ErrInternalBadWireType
   \<and> UnmarshalMerge ex_ext (Message () [] []) [0x08, 0x05, 0x0C, 0x10] = Inl ErrInternalBadWireType
   \<and> Unmarshal ex_ext (Message () [] []) [0x08, 0x05, 0x0C, 0x10] = Inl ErrInternalBadWireType
   \<and> unmarshal ex_ext [0x08, 0x05, 0x0C, 0x10] True (Message () [] []) =
       Inr (Message () [(1, VInt32 5)] [], [0x10])
   \<and> (fieldStep ex_ext)\<^sup>*\<^sup>* (Message () [] [], [0x08, 0x05]) (Message () [(1, VInt32 5)] [], [])
   \<and> unmarshal ex_ext [0x08, 0x05] True (Message () [] []) = Inl ErrUnexpectedEOF
   \<and> unmarshalKnownField ex_ext (Message () [] [])
         ((ex_field TYPE_GROUP False)\<lparr>GetMessageType := Some ()\<rparr>) WireStartGroup [0x08, 0x05]
       = Inl ErrUnexpectedEOF"
proof -
  let ?m0 = "Message () [] [] :: (unit, unit) Message"
  let ?m1 = "Message () [(1, VInt32 5)] [] :: (unit, unit) Message"
  let ?b = "[0x08, 0x05, 0x0C, 0x10] :: byte list"
  let ?g = "(ex_field TYPE_GROUP False)\<lparr>GetMessageType := Some ()\<rparr>"
  have s1: "fieldStep ex_ext (?m0, ?b) (?m1, [0x0C, 0x10])" by code_simp
  then have h1: "(fieldStep ex_ext)\<^sup>*\<^sup>* (?m0, ?b) (?m1, [0x0C, 0x10])" by (rule r_into_rtranclp)
  have rs: "Reset ?m0 = ?m0" by (simp add: Reset_def)
  have h1r: "(fieldStep ex_ext)\<^sup>*\<^sup>* (Reset ?m0, ?b) (?m1, [0x0C, 0x10])"
    unfolding rs by (rule h1)
  have h2: "DecodeTagAndWireType [0x0C, 0x10] = Inr ((1, WireEndGroup), [0x10])" by code_simp
  have s3: "fieldStep ex_ext (?m0, [0x08, 0x05]) (?m1, [])" by code_simp
  then have h3: "(fieldStep ex_ext)\<^sup>*\<^sup>* (?m0, [0x08, 0x05]) (?m1, [])" by (rule r_into_rtranclp)
  note t = unmarshal_group_markers
    [of ex_ext ?m0 ?b ?m1 "[0x0C, 0x10]" 1 "[0x10]" ?g ?m0 ErrUnexpectedEOF]
  note u = unmarshal_group_markers
    [of ex_ext ?m0 "[0x08, 0x05]" ?m1 "[]" 1 "[0x10]" ?g ?m0 ErrUnexpectedEOF]
  note a = t [THEN conjunct1, THEN mp, OF conjI [OF h1 h2]]
  note b = t [THEN conjunct2, THEN conjunct1, THEN mp, OF conjI [OF h1r h2]]
  note c = u [THEN conjunct2, THEN conjunct2, THEN conjunct1, THEN mp, OF h3]
  have h4: "GetMessageType ?g \<noteq> None \<and> NewMessage ex_ext (GetMessageType ?g) = Dynamic ?m0
      \<and> unmarshal ex_ext [0x08, 0x05] True ?m0 = Inl ErrUnexpectedEOF"
    using c [THEN conjunct1] by (simp add: ex_ext_def ex_field_def)
  note v = unmarshal_group_markers
    [of ex_ext ?m0 "[0x08, 0x05]" ?m0 "[]" 1 "[0x10]" ?g ?m0 ErrUnexpectedEOF]
  note d = v [THEN conjunct2, THEN conjunct2, THEN conjunct2, THEN mp, OF h4]
  show ?thesis
    by (intro conjI h1 h2 a [THEN conjunct1] a [THEN conjunct2, THEN conjunct1] b
          a [THEN conjunct2, THEN conjunct2] h3 c [THEN conjunct1] d)
qed

subsection \<open>A group of a generated message type\<close>

text \<open>
  For a group field whose message factory returns a message that is not a
  \<^verbatim>\<open>*dynamic.Message\<close>, \<open>unmarshalKnownField\<close> reads the group with \<^verbatim>\<open>ReadGroup\<close>. The
  error of \<^verbatim>\<open>ReadGroup\<close> is assigned to a variable of the inner block, so the function
  goes on with a nil error and a nil value: it merges nil into the field and leaves the
  buffer where \<^verbatim>\<open>ReadGroup\<close> left it.
\<close>

lemma unmarshalKnownField_generated_group:
  assumes "GetMessageType fd \<noteq> None"
    and "NewMessage ext (GetMessageType fd) = Generated g"
    and "ReadGroup False b = Inl err"
  shows "unmarshalKnownField ext m fd WireStartGroup b =
           (case mergeField ext m fd VNil of Inl e \<Rightarrow> Inl e | Inr m' \<Rightarrow> Inr (m', b))"
  using assms by (subst unmarshalKnownField.simps) (auto simp: wire_defs)

text \<open>
  A message type with a group field 1 and a repeated int32 field 2. The message factory
  returns a dynamic message for the group (\<open>ex_ext_group True\<close>) or a generated one
  (\<open>ex_ext_group False\<close>).
\<close>

definition ex_ext_group :: "bool \<Rightarrow> (unit, unit) externals" where
  "ex_ext_group dyn =
     ex_ext
       \<lparr> FindFieldDescriptor :=
           (\<lambda>md tag. if tag = 1 then Some ((ex_field TYPE_GROUP False)\<lparr>GetMessageType := Some ()\<rparr>)
                     else if tag = 2 then Some ((ex_field TYPE_INT32 True)\<lparr>GetNumber := 2\<rparr>)
                     else None),
         NewMessage := (\<lambda>md. if dyn then Dynamic (Message () [] []) else Generated ()) \<rparr>"

text \<open>
  C6. The input \<^verbatim>\<open>0B 10 05\<close> starts the group of field 1 and ends inside it: after the
  start marker come the header and the value of field 2, and no end marker.
  \<^verbatim>\<open>ReadGroup\<close> fails on the rest with \<^verbatim>\<open>io.ErrUnexpectedEOF\<close>. When the group's
  message type is a generated one, neither \<open>UnmarshalMerge\<close> nor \<open>Unmarshal\<close> reports it:
  both succeed, with nil stored for field 1 and the contents of the group decoded as
  fields of the enclosing message. When the group's message type is dynamic, the same
  input gives \<^verbatim>\<open>io.ErrUnexpectedEOF\<close>.
\<close>

theorem group_eof_not_reported:
  "ReadGroup False [0x10, 0x05] = Inl ErrUnexpectedEOF
   \<and> UnmarshalMerge (ex_ext_group False) (Message () [] []) [0x0B, 0x10, 0x05]
       = Inr (Message () [(1, VNil), (2, VSlice [VInt32 5])] [])
   \<and> Unmarshal (ex_ext_group False) (Message () [] []) [0x0B, 0x10, 0x05]
       = Inr (Message () [(1, VNil), (2, VSlice [VInt32 5])] [])
   \<and> UnmarshalMerge (ex_ext_group True) (Message () [] []) [0x0B, 0x10, 0x05]
       = Inl ErrUnexpectedEOF
   \<and> Unmarshal (ex_ext_group True) (Message () [] []) [0x0B, 0x10, 0x05]
       = Inl ErrUnexpectedEOF"
  by code_simp


section \<open>Reset, merge and validation\<close>


lemmas cc = sum.case_cong option.case_cong prod.case_cong proto_Message.case_cong if_cong











end
